theory Spec2Isabelle
  imports Main "HOL-Library.Sublist"
begin

section \<open>Go channels\<close>

text \<open>
  The program is written against Go channels, so the embedding starts with the channel
  operations the source uses: \<^verbatim>\<open>make\<close>, send, receive, \<^verbatim>\<open>close\<close>.
  A step of a goroutine either completes, cannot proceed in the current state
  (\<open>Blocks\<close>), or panics (\<open>Panics\<close>).
\<close>

datatype fault = Blocks | Panics

text \<open>
  A channel has a buffer capacity, the buffered values in FIFO order, and a closed flag.
  \<open>rwait\<close> counts the receivers parked on the channel (a receive on an empty open
  channel parks the receiver; a later send hands its value directly to a parked
  receiver). \<open>taken\<close> lists, in order, the values receivers have obtained.
\<close>

record 'a chan =
  cap :: nat
  buf :: "'a list"
  closed :: bool
  rwait :: nat
  taken :: "'a list"

definition new_chan :: "nat \<Rightarrow> 'a chan" where
  "new_chan n = \<lparr>cap = n, buf = [], closed = False, rwait = 0, taken = []\<rparr>"

text \<open>
  \<^verbatim>\<open>make(chan T, n)\<close> panics for a negative size and for a size whose buffer the
  runtime cannot allocate (\<^verbatim>\<open>makechan: size out of range\<close>). The largest size it
  accepts depends on the platform and on the element type; it is the parameter \<open>lim\<close>.
\<close>

definition make_chan :: "nat \<Rightarrow> int \<Rightarrow> fault + 'a chan" where
  "make_chan lim n = (if n < 0 \<or> int lim < n then Inl Panics else Inr (new_chan (nat n)))"

text \<open>A send can proceed at once iff a receiver is parked or the buffer has room.\<close>

definition can_send :: "'a chan \<Rightarrow> bool" where
  "can_send c = (0 < rwait c \<or> length (buf c) < cap c)"

definition full :: "'a chan \<Rightarrow> bool" where
  "full c = (\<not> can_send c)"

definition chan_send :: "'a \<Rightarrow> 'a chan \<Rightarrow> fault + 'a chan" where
  "chan_send x c =
     (if closed c then Inl Panics
      else if 0 < rwait c then Inr (c\<lparr>rwait := rwait c - 1, taken := taken c @ [x]\<rparr>)
      else if length (buf c) < cap c then Inr (c\<lparr>buf := buf c @ [x]\<rparr>)
      else Inl Blocks)"

text \<open>
  A receiver arriving at the channel takes the oldest buffered value; on an empty closed
  channel it returns at once with the end-of-stream indication; otherwise it parks.
\<close>

definition chan_recv :: "'a chan \<Rightarrow> 'a chan" where
  "chan_recv c =
     (case buf c of
        x # xs \<Rightarrow> c\<lparr>buf := xs, taken := taken c @ [x]\<rparr>
      | [] \<Rightarrow> if closed c then c else c\<lparr>rwait := rwait c + 1\<rparr>)"

text \<open>Closing a closed channel panics; closing wakes every parked receiver.\<close>

definition chan_close :: "'a chan \<Rightarrow> fault + 'a chan" where
  "chan_close c = (if closed c then Inl Panics else Inr (c\<lparr>closed := True, rwait := 0\<rparr>))"

text \<open>Everything the channel has accepted from senders, in order.\<close>

definition delivered :: "'a chan \<Rightarrow> 'a list" where
  "delivered c = taken c @ buf c"

text \<open>What a reader of the channel sees next is the end of the stream.\<close>

definition at_eos :: "'a chan \<Rightarrow> bool" where
  "at_eos c = (closed c \<and> buf c = [])"

section \<open>The data model of \<^verbatim>\<open>mux.go\<close>\<close>

text \<open>
  Channels live in a store; a channel value of the program (\<^verbatim>\<open>chan<-\<close>, \<^verbatim>\<open><-chan\<close>)
  is an address in it. An \<^verbatim>\<open>output\<close> is a name and the send side of its channel.
\<close>

type_synonym addr = nat

record outputT =
  name :: string
  dst :: addr

text \<open>
  The source channel as the mux sees it: the items on offer (buffered, or held by a
  producer blocked in its send), oldest first, and whether the producer closed it.
\<close>

record 'a source =
  queue :: "'a list"
  sclosed :: bool

text \<open>
  The \<^verbatim>\<open>writer\<close> field holds one of three functions: \<^verbatim>\<open>blockingOutputWriter\<close>, the
  closure \<^verbatim>\<open>makeTimeoutOutputWriter(timeout)\<close> returns, or \<^verbatim>\<open>nonBlockingOutputWriter\<close>.
\<close>

datatype writer_fn = BlockingWriter | TimeoutWriter int | NonBlockingWriter

text \<open>
  The struct, field by field. \<^verbatim>\<open>lock\<close> is the mutex (held or free);
  \<^verbatim>\<open>time.Duration\<close> is a number of nanoseconds. The fields \<^verbatim>\<open>blocking\<close> and
  \<^verbatim>\<open>timeout\<close> are set by the constructors and read nowhere.
\<close>

record 'a PairMux =
  Finished :: "bool chan"
  outputs :: "outputT list"
  lock :: bool
  src :: "'a source"
  blocking :: bool
  timeout :: int
  writer :: writer_fn
  started :: bool

text \<open>
  Where a goroutine launched by \<^verbatim>\<open>Start\<close> stands:
  \<open>AtRead\<close> before the receive of \<^verbatim>\<open>RunStep\<close>,
  \<open>AtSnapshot\<close> with the item in hand before the locked copy of \<^verbatim>\<open>m.outputs\<close>,
  \<open>Writing\<close> in the range loop with the outputs still to be served,
  \<open>InSelect\<close> inside the \<^verbatim>\<open>select\<close> of the timed writer with the time its timer
  still sleeps, \<open>AtShutdown\<close> before \<^verbatim>\<open>shutdown\<close> takes the lock,
  \<open>AtSignal\<close> before the send on \<^verbatim>\<open>Finished\<close> (lock held), \<open>Exited\<close> after it.
\<close>

datatype 'a pc =
    AtRead
  | AtSnapshot 'a
  | Writing 'a "outputT list"
  | InSelect 'a outputT "outputT list" nat
  | AtShutdown
  | AtSignal
  | Exited

text \<open>
  The mux together with what its methods act on: the output channels (an output's
  \<open>dst\<close> is an index into \<open>chans\<close>), the goroutines \<^verbatim>\<open>Start\<close> has launched, the
  items read from the source so far, and the largest channel size the runtime's
  \<^verbatim>\<open>make\<close> accepts.
\<close>

record 'a world = "'a PairMux" +
  chans :: "'a chan list"
  loops :: "'a pc list"
  readlog :: "'a list"
  limit :: nat

section \<open>Constructors\<close>

definition makeTimeoutOutputWriter :: "int \<Rightarrow> writer_fn" where
  "makeTimeoutOutputWriter d = TimeoutWriter d"

definition NewBlockingPairMux :: "'a source \<Rightarrow> 'a PairMux" where
  "NewBlockingPairMux sr =
     \<lparr>Finished = new_chan 1, outputs = [], lock = False, src = sr, blocking = True,
      timeout = 0, writer = BlockingWriter, started = False\<rparr>"

definition NewNonBlockingPairMux :: "'a source \<Rightarrow> int \<Rightarrow> 'a PairMux" where
  "NewNonBlockingPairMux sr d =
     \<lparr>Finished = new_chan 1, outputs = [], lock = False, src = sr, blocking = False,
      timeout = d,
      writer = (if d \<noteq> 0 then makeTimeoutOutputWriter d else NonBlockingWriter),
      started = False\<rparr>"

text \<open>
  A freshly constructed mux on a runtime with a given limit: no output channel, no
  goroutine, nothing read.
\<close>

definition boot :: "nat \<Rightarrow> 'a PairMux \<Rightarrow> 'a world" where
  "boot lim m = PairMux.extend m (world.fields [] [] [] lim)"

text \<open>
  The limit used in the concrete runs below: 8-byte elements and a 96-byte channel
  header within 48 bits of heap address, as on a 64-bit platform.
\<close>

definition limit64 :: nat where
  "limit64 = 35184372088820"

section \<open>Methods\<close>

text \<open>
  A method call that neither blocks inside a critical section nor yields between two
  of them is one step. \<^verbatim>\<open>AddOutput\<close> makes the channel (a negative size panics, before
  the lock is touched), waits for the lock, appends the output and returns the channel.
\<close>

definition AddOutput :: "string \<Rightarrow> int \<Rightarrow> 'a world \<Rightarrow> fault + (addr \<times> 'a world)" where
  "AddOutput nm bf s =
     (case make_chan (limit s) bf of
        Inl f \<Rightarrow> Inl f
      | Inr c \<Rightarrow>
          if lock s then Inl Blocks
          else Inr (length (chans s),
                    s\<lparr>outputs := outputs s @ [\<lparr>name = nm, dst = length (chans s)\<rparr>],
                      chans := chans s @ [c]\<rparr>))"

text \<open>
  \<^verbatim>\<open>Start\<close> waits for the lock, returns if \<^verbatim>\<open>started\<close> is set, and otherwise launches
  the goroutine, which begins at the receive of \<^verbatim>\<open>RunStep\<close>, and sets the flag.
\<close>

definition Start :: "'a world \<Rightarrow> fault + 'a world" where
  "Start s =
     (if lock s then Inl Blocks
      else if started s then Inr s
      else Inr (s\<lparr>started := True, loops := loops s @ [AtRead]\<rparr>))"

text \<open>\<^verbatim>\<open>WaitUntilFinished\<close> is a receive on \<^verbatim>\<open>Finished\<close>.\<close>

definition WaitUntilFinished :: "'a world \<Rightarrow> 'a world" where
  "WaitUntilFinished s = s\<lparr>Finished := chan_recv (Finished s)\<rparr>"

text \<open>A send on the channel at an address; a nil channel blocks for ever.\<close>

definition send_to :: "addr \<Rightarrow> 'a \<Rightarrow> 'a world \<Rightarrow> fault + 'a world" where
  "send_to a x s =
     (if a < length (chans s) then
        (case chan_send x (chans s ! a) of
           Inl f \<Rightarrow> Inl f
         | Inr c \<Rightarrow> Inr (s\<lparr>chans := (chans s)[a := c]\<rparr>))
      else Inl Blocks)"

text \<open>\<^verbatim>\<open>o.dst <- item\<close>: waits while the destination cannot accept the send.\<close>

definition blockingOutputWriter :: "outputT \<Rightarrow> 'a \<Rightarrow> 'a world \<Rightarrow> fault + 'a world" where
  "blockingOutputWriter out x s = send_to (dst out) x s"

text \<open>\<^verbatim>\<open>select\<close> with a \<^verbatim>\<open>default\<close>: the send case if it can proceed, else nothing.\<close>

definition nonBlockingOutputWriter :: "outputT \<Rightarrow> 'a \<Rightarrow> 'a world \<Rightarrow> fault + 'a world" where
  "nonBlockingOutputWriter out x s =
     (case send_to (dst out) x s of
        Inl Blocks \<Rightarrow> Inr s
      | Inl Panics \<Rightarrow> Inl Panics
      | Inr s' \<Rightarrow> Inr s')"

text \<open>
  The timed writer makes \<^verbatim>\<open>kill\<close>, launches the sleeper and enters its \<^verbatim>\<open>select\<close>;
  \<^verbatim>\<open>time.Sleep\<close> returns at once for a duration that is not positive.
\<close>

definition timeoutOutputWriter_enter ::
  "int \<Rightarrow> 'a \<Rightarrow> outputT \<Rightarrow> outputT list \<Rightarrow> 'a pc" where
  "timeoutOutputWriter_enter d x out rest = InSelect x out rest (nat d)"

text \<open>
  \<^verbatim>\<open>RunStep\<close> in its steps. The receive \<^verbatim>\<open>item, ok := <-m.src\<close> takes the oldest
  item on offer, returns false (on to \<^verbatim>\<open>shutdown\<close>) when the source is closed and
  empty, and waits otherwise. The copy of \<^verbatim>\<open>m.outputs\<close> is taken with the lock; it
  shares no element that is ever written again, so it is a list of its own. The range
  loop then calls the writer on each output of the copy in turn, and \<^verbatim>\<open>RunStep\<close>
  returns true (back to the receive) after the last.
\<close>

definition RunStep_recv :: "'a world \<Rightarrow> fault + ('a pc \<times> 'a world)" where
  "RunStep_recv s =
     (case queue (src s) of
        x # xs \<Rightarrow> Inr (AtSnapshot x, s\<lparr>src := (src s)\<lparr>queue := xs\<rparr>, readlog := readlog s @ [x]\<rparr>)
      | [] \<Rightarrow> if sclosed (src s) then Inr (AtShutdown, s) else Inl Blocks)"

definition RunStep_snapshot :: "'a \<Rightarrow> 'a world \<Rightarrow> fault + ('a pc \<times> 'a world)" where
  "RunStep_snapshot x s = (if lock s then Inl Blocks else Inr (Writing x (outputs s), s))"

definition after_write :: "'a \<Rightarrow> outputT list \<Rightarrow> fault + 'a world \<Rightarrow> fault + ('a pc \<times> 'a world)" where
  "after_write x rest r = (case r of Inl f \<Rightarrow> Inl f | Inr s' \<Rightarrow> Inr (Writing x rest, s'))"

text \<open>
  \<^verbatim>\<open>shutdown\<close> takes the lock, closes the destination of every output in order (the
  close of a closed or nil channel panics), sends on \<^verbatim>\<open>Finished\<close> with the lock
  still held, and releases the lock as it returns. The log line at its start is left out.
\<close>

fun close_all :: "addr list \<Rightarrow> 'a chan list \<Rightarrow> fault + 'a chan list" where
  "close_all [] cs = Inr cs"
| "close_all (a # as) cs =
     (if a < length cs then
        (case chan_close (cs ! a) of
           Inl f \<Rightarrow> Inl f
         | Inr c \<Rightarrow> close_all as (cs[a := c]))
      else Inl Panics)"

definition shutdown_close :: "'a world \<Rightarrow> fault + ('a pc \<times> 'a world)" where
  "shutdown_close s =
     (if lock s then Inl Blocks
      else (case close_all (map dst (outputs s)) (chans s) of
              Inl f \<Rightarrow> Inl f
            | Inr cs \<Rightarrow> Inr (AtSignal, s\<lparr>lock := True, chans := cs\<rparr>)))"

definition shutdown_signal :: "'a world \<Rightarrow> fault + ('a pc \<times> 'a world)" where
  "shutdown_signal s =
     (case chan_send True (Finished s) of
        Inl f \<Rightarrow> Inl f
      | Inr c \<Rightarrow> Inr (Exited, s\<lparr>Finished := c, lock := False\<rparr>))"

text \<open>
  The call \<^verbatim>\<open>m.writer(output, item)\<close> in the range loop of \<^verbatim>\<open>RunStep\<close>. The two
  plain writers complete within the step; the timed writer enters its \<^verbatim>\<open>select\<close>,
  which ends by the send case (a step of the goroutine) or by the \<^verbatim>\<open>kill\<close> case.
\<close>

fun invoke ::
  "writer_fn \<Rightarrow> 'a \<Rightarrow> outputT \<Rightarrow> outputT list \<Rightarrow> 'a world \<Rightarrow> fault + ('a pc \<times> 'a world)" where
  "invoke BlockingWriter x out rest s = after_write x rest (blockingOutputWriter out x s)"
| "invoke (TimeoutWriter d) x out rest s = Inr (timeoutOutputWriter_enter d x out rest, s)"
| "invoke NonBlockingWriter x out rest s = after_write x rest (nonBlockingOutputWriter out x s)"

text \<open>One step of a goroutine launched by \<^verbatim>\<open>Start\<close>, from where it stands.\<close>

fun loop_step :: "'a pc \<Rightarrow> 'a world \<Rightarrow> fault + ('a pc \<times> 'a world)" where
  "loop_step AtRead s = RunStep_recv s"
| "loop_step (AtSnapshot x) s = RunStep_snapshot x s"
| "loop_step (Writing x []) s = Inr (AtRead, s)"
| "loop_step (Writing x (out # rest)) s = invoke (writer s) x out rest s"
| "loop_step (InSelect x out rest t) s = after_write x rest (send_to (dst out) x s)"
| "loop_step AtShutdown s = shutdown_close s"
| "loop_step AtSignal s = shutdown_signal s"
| "loop_step Exited s = Inl Blocks"

section \<open>Interleavings\<close>

text \<open>
  The program runs as an interleaving of steps: a caller's \<^verbatim>\<open>AddOutput\<close> or
  \<^verbatim>\<open>Start\<close>, a step of the goroutine with a given index, the \<^verbatim>\<open>kill\<close> case of that
  goroutine's \<^verbatim>\<open>select\<close> (on offer once its sleeper has slept), the passing of one
  unit of time, a caller entering \<^verbatim>\<open>WaitUntilFinished\<close>, a consumer entering a receive
  on an output channel, and the producer sending on or closing the source (a send on, or
  a second close of, a closed channel panics). A step that cannot proceed in a state
  \<open>Blocks\<close> there; a run is a list of steps each of which proceeds.
\<close>

datatype 'a event =
    EvAddOutput string int
  | EvStart
  | EvLoop nat
  | EvKill nat
  | EvTick
  | EvWait
  | EvRecv addr
  | EvPush 'a
  | EvCloseSrc

fun tick :: "'a pc \<Rightarrow> 'a pc" where
  "tick (InSelect x out rest t) = InSelect x out rest (t - 1)"
| "tick p = p"

fun kill_step :: "'a pc \<Rightarrow> fault + 'a pc" where
  "kill_step (InSelect x out rest t) = (if t = 0 then Inr (Writing x rest) else Inl Blocks)"
| "kill_step p = Inl Blocks"

fun exec :: "'a event \<Rightarrow> 'a world \<Rightarrow> fault + 'a world" where
  "exec (EvAddOutput nm bf) s = map_sum id snd (AddOutput nm bf s)"
| "exec EvStart s = Start s"
| "exec (EvLoop i) s =
     (if i < length (loops s) then
        (case loop_step (loops s ! i) s of
           Inl f \<Rightarrow> Inl f
         | Inr (p, s') \<Rightarrow> Inr (s'\<lparr>loops := (loops s')[i := p]\<rparr>))
      else Inl Blocks)"
| "exec (EvKill i) s =
     (if i < length (loops s) then
        (case kill_step (loops s ! i) of
           Inl f \<Rightarrow> Inl f
         | Inr p \<Rightarrow> Inr (s\<lparr>loops := (loops s)[i := p]\<rparr>))
      else Inl Blocks)"
| "exec EvTick s = Inr (s\<lparr>loops := map tick (loops s)\<rparr>)"
| "exec EvWait s = Inr (WaitUntilFinished s)"
| "exec (EvRecv a) s =
     (if a < length (chans s) then Inr (s\<lparr>chans := (chans s)[a := chan_recv (chans s ! a)]\<rparr>)
      else Inl Blocks)"
| "exec (EvPush x) s =
     (if sclosed (src s) then Inl Panics
      else Inr (s\<lparr>src := (src s)\<lparr>queue := queue (src s) @ [x]\<rparr>\<rparr>))"
| "exec EvCloseSrc s =
     (if sclosed (src s) then Inl Panics else Inr (s\<lparr>src := (src s)\<lparr>sclosed := True\<rparr>\<rparr>))"

fun run :: "'a event list \<Rightarrow> 'a world \<Rightarrow> fault + 'a world" where
  "run [] s = Inr s"
| "run (e # es) s = (case exec e s of Inl f \<Rightarrow> Inl f | Inr s' \<Rightarrow> run es s')"


section \<open>Invariants of the reachable states\<close>

text \<open>
  A channel never has a parked receiver and a buffered value at once, and never holds
  more than its capacity.
\<close>


definition chan_ok :: "'a chan \<Rightarrow> bool" where
  "chan_ok c = ((0 < rwait c \<longrightarrow> buf c = []) \<and> length (buf c) \<le> cap c)"

definition open_all :: "'a world \<Rightarrow> bool" where
  "open_all s = (\<forall>c \<in> set (chans s). \<not> closed c)"

definition all_closed :: "'a world \<Rightarrow> bool" where
  "all_closed s = (\<forall>c \<in> set (chans s). closed c)"

definition exhausted :: "'a world \<Rightarrow> bool" where
  "exhausted s = (queue (src s) = [] \<and> sclosed (src s))"

definition read_last :: "'a \<Rightarrow> 'a world \<Rightarrow> bool" where
  "read_last x s = (readlog s \<noteq> [] \<and> last (readlog s) = x)"

definition window :: "outputT list \<Rightarrow> 'a world \<Rightarrow> bool" where
  "window outs s = (\<exists>m. map dst outs = [m..<m + length outs] \<and> m + length outs \<le> length (chans s))"

fun pc_inv :: "'a pc \<Rightarrow> 'a world \<Rightarrow> bool" where
  "pc_inv AtRead s = open_all s"
| "pc_inv (AtSnapshot x) s = (open_all s \<and> read_last x s)"
| "pc_inv (Writing x outs) s = (open_all s \<and> read_last x s \<and> window outs s)"
| "pc_inv (InSelect x out rest t) s = (open_all s \<and> read_last x s \<and> window (out # rest) s)"
| "pc_inv AtShutdown s = (open_all s \<and> exhausted s)"
| "pc_inv AtSignal s = (all_closed s \<and> exhausted s)"
| "pc_inv Exited s = exhausted s"

definition loops_inv :: "'a world \<Rightarrow> bool" where
  "loops_inv s =
     (case loops s of
        [] \<Rightarrow> \<not> started s \<and> open_all s \<and> readlog s = []
      | [p] \<Rightarrow> started s \<and> pc_inv p s
      | _ \<Rightarrow> False)"

definition lock_inv :: "'a world \<Rightarrow> bool" where
  "lock_inv s = (lock s \<longleftrightarrow> loops s = [AtSignal])"

definition heap_inv :: "'a world \<Rightarrow> bool" where
  "heap_inv s = (map dst (outputs s) = [0..<length (chans s)] \<and> (\<forall>c \<in> set (chans s). chan_ok c))"

definition fin_inv :: "'a world \<Rightarrow> bool" where
  "fin_inv s =
     (cap (Finished s) = 1 \<and> \<not> closed (Finished s) \<and> chan_ok (Finished s) \<and>
      delivered (Finished s) = (if loops s = [Exited] then [True] else []))"

definition sound :: "'a world \<Rightarrow> bool" where
  "sound s = (loops_inv s \<and> lock_inv s \<and> heap_inv s \<and> fin_inv s)"


section \<open>Notions used by the statements\<close>

text \<open>A mux as one of the two constructors returns it.\<close>

definition constructed :: "'a PairMux \<Rightarrow> bool" where
  "constructed m =
     (m = NewBlockingPairMux (src m) \<or> m = NewNonBlockingPairMux (src m) (timeout m))"

text \<open>
  Callers of \<^verbatim>\<open>WaitUntilFinished\<close> still blocked, callers that have returned, and
  whether the completion value has been sent on \<^verbatim>\<open>Finished\<close>.
\<close>

definition waiting :: "'a world \<Rightarrow> nat" where
  "waiting s = rwait (Finished s)"

definition returned :: "'a world \<Rightarrow> nat" where
  "returned s = length (taken (Finished s))"

definition signalled :: "'a world \<Rightarrow> bool" where
  "signalled s = (delivered (Finished s) \<noteq> [])"

text \<open>Every registered output's destination is closed.\<close>

definition outputs_closed :: "'a world \<Rightarrow> bool" where
  "outputs_closed s = list_all (\<lambda>out. dst out < length (chans s) \<and> closed (chans s ! dst out)) (outputs s)"

text \<open>
  A goroutine inside the timed writer's \<^verbatim>\<open>select\<close> has a timer that sleeps no
  longer than the configured duration.
\<close>

definition timer_ok :: "writer_fn \<Rightarrow> 'a pc \<Rightarrow> bool" where
  "timer_ok w p =
     (case p of
        InSelect x out rest t \<Rightarrow> (case w of TimeoutWriter d \<Rightarrow> t \<le> nat d | _ \<Rightarrow> False)
      | _ \<Rightarrow> True)"

definition timer_inv :: "'a world \<Rightarrow> bool" where
  "timer_inv s = list_all (timer_ok (writer s)) (loops s)"

text \<open>
  Once the goroutine has exited, a channel that is still open has never been sent to.
\<close>

definition late_inv :: "'a world \<Rightarrow> bool" where
  "late_inv s = (loops s = [Exited] \<longrightarrow> (\<forall>c \<in> set (chans s). closed c \<or> delivered c = []))"

text \<open>
  Bookkeeping for the delivery claims. An output is still to be served with the item in
  hand while the goroutine holds an item and has not yet passed the output; \<open>due\<close> is
  what an output served with every item would have been sent: the items read so far, less
  the item in hand while the output is still to be served. \<open>pushes\<close> lists the items
  the producer sends in a run.
\<close>

fun pend :: "'a pc \<Rightarrow> addr \<Rightarrow> bool" where
  "pend (AtSnapshot x) a = True"
| "pend (Writing x outs) a = (a \<in> dst ` set outs)"
| "pend (InSelect x out rest t) a = (a \<in> dst ` set (out # rest))"
| "pend p a = False"

definition due :: "'a world \<Rightarrow> addr \<Rightarrow> 'a list" where
  "due s a = (if list_ex (\<lambda>p. pend p a) (loops s) then butlast (readlog s) else readlog s)"

fun pushes :: "'a event list \<Rightarrow> 'a list" where
  "pushes [] = []"
| "pushes (EvPush x # es) = x # pushes es"
| "pushes (e # es) = pushes es"

text \<open>The first \<open>k\<close> channels stand in relation \<open>R\<close> to what is due to them.\<close>

definition rel :: "('a list \<Rightarrow> 'a list \<Rightarrow> bool) \<Rightarrow> nat \<Rightarrow> 'a world \<Rightarrow> bool" where
  "rel R k s = (k \<le> length (chans s) \<and> (\<forall>a<k. R (delivered (chans s ! a)) (due s a)))"

definition nodup :: "'a world \<Rightarrow> bool" where
  "nodup s = rel subseq (length (chans s)) s"

text \<open>
  A schedule that completes a run of a blocking mux whose source is closed: for every
  write a consumer of that output receives and the goroutine steps.
\<close>

fun serve :: "outputT list \<Rightarrow> 'a event list" where
  "serve [] = [EvLoop 0]"
| "serve (out # rest) = EvRecv (dst out) # EvLoop 0 # serve rest"

fun pump :: "nat \<Rightarrow> outputT list \<Rightarrow> 'a event list" where
  "pump 0 outs = [EvLoop 0, EvLoop 0, EvLoop 0]"
| "pump (Suc n) outs = EvLoop 0 # EvLoop 0 # serve outs @ pump n outs"

definition finish :: "'a world \<Rightarrow> 'a event list" where
  "finish s =
     (case loops s of
        [] \<Rightarrow> EvStart # pump (length (queue (src s))) (outputs s)
      | p # ps \<Rightarrow>
          (case p of
             AtRead \<Rightarrow> pump (length (queue (src s))) (outputs s)
           | AtSnapshot x \<Rightarrow> EvLoop 0 # serve (outputs s) @ pump (length (queue (src s))) (outputs s)
           | Writing x outs \<Rightarrow> serve outs @ pump (length (queue (src s))) (outputs s)
           | InSelect x out rest t \<Rightarrow> []
           | AtShutdown \<Rightarrow> [EvLoop 0, EvLoop 0]
           | AtSignal \<Rightarrow> [EvLoop 0]
           | Exited \<Rightarrow> []))"

section \<open>Channel lemmas and preservation of the invariant\<close>

lemma chan_send_Inr:
  "chan_send x c = Inr c' \<Longrightarrow> chan_ok c \<Longrightarrow>
     closed c' = closed c \<and> \<not> closed c \<and> cap c' = cap c \<and> chan_ok c' \<and> delivered c' = delivered c @ [x]"
  by (auto simp: chan_send_def chan_ok_def delivered_def split: if_splits)

lemma chan_send_Blocks: "(chan_send x c = Inl Blocks) = (\<not> closed c \<and> full c)"
  by (auto simp: chan_send_def full_def can_send_def)

lemma chan_send_Panics: "(chan_send x c = Inl Panics) = closed c"
  by (auto simp: chan_send_def)

lemma chan_recv_props:
  "closed (chan_recv c) = closed c" "cap (chan_recv c) = cap c"
  "delivered (chan_recv c) = delivered c" "chan_ok c \<Longrightarrow> chan_ok (chan_recv c)"
  by (auto simp: chan_recv_def chan_ok_def delivered_def split: list.splits)

lemma close_all_upt:
  "m \<le> n \<Longrightarrow> n \<le> length cs \<Longrightarrow> \<forall>i<length cs. m \<le> i \<longrightarrow> \<not> closed (cs ! i) \<Longrightarrow>
   \<exists>cs'. close_all [m..<n] cs = Inr cs' \<and> length cs' = length cs \<and>
     (\<forall>i<length cs. cs' ! i = (if m \<le> i \<and> i < n then (cs ! i)\<lparr>closed := True, rwait := 0\<rparr> else cs ! i))"
proof (induction "n - m" arbitrary: m cs)
  case 0
  then show ?case by simp
next
  case (Suc d)
  then have mn: "m < n" by simp
  let ?cs1 = "cs[m := (cs ! m)\<lparr>closed := True, rwait := 0\<rparr>]"
  have step: "close_all [m..<n] cs = close_all [Suc m..<n] ?cs1"
    using mn Suc.prems by (simp add: upt_conv_Cons chan_close_def)
  have "\<exists>cs'. close_all [Suc m..<n] ?cs1 = Inr cs' \<and> length cs' = length ?cs1 \<and>
     (\<forall>i<length ?cs1. cs' ! i = (if Suc m \<le> i \<and> i < n then (?cs1 ! i)\<lparr>closed := True, rwait := 0\<rparr> else ?cs1 ! i))"
    using Suc.hyps(2) mn Suc.prems by (intro Suc.hyps(1)) auto
  then obtain cs' where c: "close_all [Suc m..<n] ?cs1 = Inr cs'" "length cs' = length cs"
    "\<forall>i<length cs. cs' ! i = (if Suc m \<le> i \<and> i < n then (?cs1 ! i)\<lparr>closed := True, rwait := 0\<rparr> else ?cs1 ! i)"
    by auto
  have "\<forall>i<length cs. cs' ! i = (if m \<le> i \<and> i < n then (cs ! i)\<lparr>closed := True, rwait := 0\<rparr> else cs ! i)"
  proof (intro allI impI)
    fix i assume i: "i < length cs"
    consider "i = m" | "i < m" | "Suc m \<le> i" by linarith
    then show "cs' ! i = (if m \<le> i \<and> i < n then (cs ! i)\<lparr>closed := True, rwait := 0\<rparr> else cs ! i)"
      using c(3) mn i by cases (auto simp: nth_list_update)
  qed
  with c step show ?case by auto
qed

lemma close_all_whole:
  assumes "\<forall>c \<in> set cs. \<not> closed c"
  shows "close_all [0..<length cs] cs = Inr (map (\<lambda>c. c\<lparr>closed := True, rwait := 0\<rparr>) cs)"
proof -
  from close_all_upt[of 0 "length cs" cs] assms
  obtain cs' where c: "close_all [0..<length cs] cs = Inr cs'" "length cs' = length cs"
    "\<forall>i<length cs. cs' ! i = (cs ! i)\<lparr>closed := True, rwait := 0\<rparr>"
    by auto
  have "cs' = map (\<lambda>c. c\<lparr>closed := True, rwait := 0\<rparr>) cs"
    using c(2,3) by (intro nth_equalityI) auto
  with c(1) show ?thesis by simp
qed

lemma inv_boot_blocking: "sound (boot L (NewBlockingPairMux sr))"
  by (simp add: sound_def loops_inv_def lock_inv_def heap_inv_def fin_inv_def boot_def
      NewBlockingPairMux_def world.defs PairMux.defs open_all_def new_chan_def chan_ok_def delivered_def)

lemma inv_boot_nonblocking: "sound (boot L (NewNonBlockingPairMux sr d))"
  by (simp add: sound_def loops_inv_def lock_inv_def heap_inv_def fin_inv_def boot_def
      NewNonBlockingPairMux_def world.defs PairMux.defs open_all_def new_chan_def chan_ok_def delivered_def)


lemmas inv_defs = sound_def loops_inv_def lock_inv_def heap_inv_def fin_inv_def
lemmas aux_defs = open_all_def all_closed_def exhausted_def read_last_def

lemma window_Cons: "window (out # rest) s \<Longrightarrow> window rest s \<and> dst out < length (chans s) \<and> dst out \<notin> dst ` set rest"
proof -
  assume "window (out # rest) s"
  then obtain m where m: "map dst (out # rest) = [m..<m + length (out # rest)]"
    "m + length (out # rest) \<le> length (chans s)" by (auto simp: window_def)
  have "[m..<Suc (m + length rest)] = m # [Suc m..<Suc (m + length rest)]"
    by (rule upt_conv_Cons) simp
  with m(1) have "dst out # map dst rest = m # [Suc m..<Suc m + length rest]"
    by (simp del: upt_Suc)
  then have d: "dst out = m" "map dst rest = [Suc m..<Suc m + length rest]"
    by (simp_all del: upt_Suc)
  have "m \<notin> set [Suc m..<Suc m + length rest]" by (simp del: upt_Suc)
  then have "dst out \<notin> set (map dst rest)" by (metis d)
  moreover have "window rest s"
    unfolding window_def using d(2) m(2) by (intro exI[of _ "Suc m"]) (simp del: upt_Suc)
  ultimately show ?thesis using d(1) m(2) by simp
qed

lemma window_outputs: "heap_inv s \<Longrightarrow> window (outputs s) s"
proof -
  assume h: "heap_inv s"
  then have "length (outputs s) = length (chans s)"
    by (metis heap_inv_def length_map length_upt minus_nat.diff_0)
  with h show ?thesis by (auto simp: window_def heap_inv_def intro: exI[of _ 0])
qed

lemma window_mono: "window outs s \<Longrightarrow> length (chans s) \<le> length (chans s') \<Longrightarrow> window outs s'"
  by (auto simp: window_def)

lemma inv_one_loop: "sound s \<Longrightarrow> i < length (loops s) \<Longrightarrow> i = 0 \<and> loops s = [loops s ! 0]"
  by (auto simp: inv_defs split: list.splits)

lemma inv_AddOutput:
  assumes "sound s" "AddOutput nm bf s = Inr (h, s')"
  shows "sound s'"
proof -
  from assms(2) obtain c where c: "make_chan (limit s) bf = Inr c" "\<not> lock s"
    "s' = s\<lparr>outputs := outputs s @ [\<lparr>name = nm, dst = length (chans s)\<rparr>], chans := chans s @ [c]\<rparr>"
    by (auto simp: AddOutput_def split: sum.splits if_splits)
  from c(1) have cn: "c = new_chan (nat bf)" by (auto simp: make_chan_def split: if_splits)
  have co: "\<not> closed c" "chan_ok c" by (auto simp: cn new_chan_def chan_ok_def)
  have h: "heap_inv s'" using assms(1) co by (auto simp: inv_defs c(3))
  have l: "lock_inv s'" using assms(1) by (auto simp: inv_defs c(3))
  have f: "fin_inv s'" using assms(1) by (auto simp: inv_defs c(3))
  have pc: "pc_inv p s'" if "pc_inv p s" "p \<noteq> AtSignal" for p
    using that co by (cases p) (auto simp: c(3) open_all_def exhausted_def read_last_def window_def)
  have "loops_inv s'" using assms(1) c(2) co pc
    by (auto simp: inv_defs split: list.splits) (auto simp: c(3) open_all_def)
  with h l f show ?thesis by (simp add: sound_def)
qed

lemma inv_Start:
  assumes "sound s" "Start s = Inr s'"
  shows "sound s'"
  using assms by (auto simp: Start_def inv_defs aux_defs split: if_splits list.splits)


lemma send_to_Inr:
  "send_to a x s = Inr s' \<Longrightarrow>
     \<exists>c'. a < length (chans s) \<and> chan_send x (chans s ! a) = Inr c' \<and> s' = s\<lparr>chans := (chans s)[a := c']\<rparr>"
  by (auto simp: send_to_def split: if_splits sum.splits)

lemma set_update_closed:
  "a < length cs \<Longrightarrow> closed c' = closed (cs ! a) \<Longrightarrow> map closed (cs[a := c']) = map closed cs"
  by (simp add: map_update list_update_same_conv)

lemma open_all_map: "open_all s = (True \<notin> set (map closed (chans s)))"
  by (auto simp: open_all_def)

lemma all_closed_map: "all_closed s = (False \<notin> set (map closed (chans s)))"
  by (auto simp: all_closed_def)

lemma pc_inv_frame:
  "map closed (chans s') = map closed (chans s) \<Longrightarrow> src s' = src s \<Longrightarrow> readlog s' = readlog s \<Longrightarrow>
   pc_inv p s' = pc_inv p s"
proof -
  assume a: "map closed (chans s') = map closed (chans s)" "src s' = src s" "readlog s' = readlog s"
  from a(1) have "length (chans s') = length (chans s)" by (metis length_map)
  with a show ?thesis
    by (cases p) (simp_all add: open_all_map all_closed_map exhausted_def read_last_def window_def)
qed

lemma inv_chan_update:
  assumes "sound s" "a < length (chans s)" "closed c' = closed (chans s ! a)" "chan_ok c'"
  shows "sound (s\<lparr>chans := (chans s)[a := c']\<rparr>)"
proof -
  let ?s = "s\<lparr>chans := (chans s)[a := c']\<rparr>"
  have m: "map closed (chans ?s) = map closed (chans s)"
    using assms(2,3) by (simp add: set_update_closed)
  have pc: "pc_inv p ?s = pc_inv p s" for p
    by (rule pc_inv_frame) (use m in simp_all)
  have op: "open_all ?s = open_all s" using m by (simp only: open_all_map)
  have ok: "\<forall>c \<in> set (chans ?s). chan_ok c"
    using assms(1,4) by (auto simp: inv_defs dest!: set_update_subset_insert[THEN subsetD])
  show ?thesis using assms(1) pc op ok
    by (auto simp: inv_defs split: list.splits)
qed

lemma inv_pc_change:
  assumes "sound s" "loops s = [p]" "pc_inv p' s" "p' \<noteq> AtSignal" "p' \<noteq> Exited"
    "p \<noteq> AtSignal" "p \<noteq> Exited"
  shows "sound (s\<lparr>loops := [p']\<rparr>)"
proof -
  have "pc_inv p' (s\<lparr>loops := [p']\<rparr>)"
    using assms(3) by (subst pc_inv_frame[of _ s]) simp_all
  then show ?thesis using assms by (auto simp: inv_defs)
qed


lemma inv_send:
  assumes "sound s" "send_to a x s = Inr s'"
  shows "sound s'"
proof -
  from send_to_Inr[OF assms(2)] obtain c' where c: "a < length (chans s)"
    "chan_send x (chans s ! a) = Inr c'" "s' = s\<lparr>chans := (chans s)[a := c']\<rparr>" by blast
  have "chan_ok (chans s ! a)" using assms(1) c(1) by (auto simp: inv_defs)
  from chan_send_Inr[OF c(2) this] show ?thesis
    unfolding c(3) using assms(1) c(1) by (intro inv_chan_update) simp_all
qed

lemma send_frame:
  "send_to a x s = Inr s' \<Longrightarrow> loops s' = loops s \<and> lock s' = lock s \<and> src s' = src s \<and>
     readlog s' = readlog s \<and> length (chans s') = length (chans s) \<and> Finished s' = Finished s \<and>
     outputs s' = outputs s \<and> started s' = started s \<and> writer s' = writer s"
  by (auto dest!: send_to_Inr)

lemma pc_inv_send:
  assumes "sound s" "send_to a x s = Inr s'"
  shows "pc_inv p s' = pc_inv p s"
proof -
  from send_to_Inr[OF assms(2)] obtain c' where c: "a < length (chans s)"
    "chan_send x (chans s ! a) = Inr c'" "s' = s\<lparr>chans := (chans s)[a := c']\<rparr>" by blast
  have "chan_ok (chans s ! a)" using assms(1) c(1) by (auto simp: inv_defs)
  from chan_send_Inr[OF c(2) this] have "closed c' = closed (chans s ! a)" by simp
  then show ?thesis unfolding c(3) using c(1)
    by (intro pc_inv_frame) (simp_all add: set_update_closed)
qed

lemma inv_write_done:
  assumes i: "sound s" and l: "loops s = [p]" and w: "pc_inv (Writing x (out # rest)) s"
    and p: "p \<noteq> AtSignal" "p \<noteq> Exited" and r: "r = Inr s' \<longrightarrow> r = Inr s \<or> r = send_to (dst out) x s"
    and a: "after_write x rest r = Inr (p', s')"
  shows "sound (s'\<lparr>loops := [p']\<rparr>)"
proof -
  from a have p': "p' = Writing x rest" "r = Inr s'" by (auto simp: after_write_def split: sum.splits)
  from w have wr: "window rest s" by (auto dest: window_Cons)
  from r p'(2) consider "s' = s" | "send_to (dst out) x s = Inr s'" by auto
  then show ?thesis
  proof cases
    case 1
    show ?thesis unfolding 1 p'(1) using i l w wr p by (intro inv_pc_change) auto
  next
    case 2
    have "sound s'" using i 2 by (rule inv_send)
    moreover have "loops s' = [p]" using send_frame[OF 2] l by simp
    moreover have "pc_inv (Writing x rest) s'"
      using pc_inv_send[OF i 2, of "Writing x rest"] w wr by simp
    ultimately show ?thesis unfolding p'(1) using p by (intro inv_pc_change) auto
  qed
qed

lemma inv_loop_step:
  assumes i: "sound s" and l: "loops s = [p]" and st: "loop_step p s = Inr (p', s')"
  shows "sound (s'\<lparr>loops := [p']\<rparr>)"
proof (cases p)
  case AtRead
  with st i l show ?thesis
    by (auto simp: RunStep_recv_def inv_defs aux_defs split: list.splits if_splits)
next
  case (AtSnapshot x)
  with st have e: "s' = s" "p' = Writing x (outputs s)" "\<not> lock s"
    by (auto simp: RunStep_snapshot_def split: if_splits)
  have "window (outputs s) s" using i by (auto simp: sound_def intro: window_outputs)
  then have "pc_inv p' s" using i l AtSnapshot e by (auto simp: inv_defs)
  then show ?thesis unfolding e(1) using i l AtSnapshot e(2) by (intro inv_pc_change) auto
next
  case (Writing x outs)
  have w: "pc_inv (Writing x outs) s" using i l Writing by (auto simp: inv_defs)
  show ?thesis
  proof (cases outs)
    case Nil
    with st Writing have e: "s' = s" "p' = AtRead" by auto
    show ?thesis unfolding e using i l Writing w by (intro inv_pc_change) auto
  next
    case (Cons out rest)
    show ?thesis
    proof (cases "writer s")
      case BlockingWriter
      with st Writing Cons
      have "after_write x rest (send_to (dst out) x s) = Inr (p', s')"
        by (simp add: blockingOutputWriter_def)
      then show ?thesis using i l w Writing Cons
        by (intro inv_write_done[where r = "send_to (dst out) x s" and p = p]) auto
    next
      case NonBlockingWriter
      with st Writing Cons
      have "after_write x rest (nonBlockingOutputWriter out x s) = Inr (p', s')" by simp
      moreover have "nonBlockingOutputWriter out x s = Inr s' \<longrightarrow>
        nonBlockingOutputWriter out x s = Inr s \<or> nonBlockingOutputWriter out x s = send_to (dst out) x s"
        by (auto simp: nonBlockingOutputWriter_def split: sum.splits fault.splits)
      ultimately show ?thesis using i l w Writing Cons
        by (intro inv_write_done[where r = "nonBlockingOutputWriter out x s" and p = p]) auto
    next
      case (TimeoutWriter d)
      with st Writing Cons have e: "s' = s" "p' = InSelect x out rest (nat d)"
        by (auto simp: timeoutOutputWriter_enter_def)
      show ?thesis unfolding e using i l Writing w Cons by (intro inv_pc_change) auto
    qed
  qed
next
  case (InSelect x out rest t)
  have w: "pc_inv (Writing x (out # rest)) s" using i l InSelect by (auto simp: inv_defs)
  from st InSelect have "after_write x rest (send_to (dst out) x s) = Inr (p', s')" by simp
  then show ?thesis using i l w InSelect
    by (intro inv_write_done[where r = "send_to (dst out) x s" and p = p]) auto
next
  case AtShutdown
  have op: "\<forall>c \<in> set (chans s). \<not> closed c" using i l AtShutdown by (auto simp: inv_defs aux_defs)
  have ds: "map dst (outputs s) = [0..<length (chans s)]" using i by (auto simp: inv_defs)
  from st AtShutdown have e: "\<not> lock s" "p' = AtSignal"
    "s' = s\<lparr>lock := True, chans := map (\<lambda>c. c\<lparr>closed := True, rwait := 0\<rparr>) (chans s)\<rparr>"
    by (auto simp: shutdown_close_def ds close_all_whole[OF op] split: if_splits)
  show ?thesis using i l AtShutdown unfolding e
    by (auto simp: inv_defs aux_defs chan_ok_def)
next
  case AtSignal
  from st AtSignal obtain c where c: "chan_send True (Finished s) = Inr c" "p' = Exited"
    "s' = s\<lparr>Finished := c, lock := False\<rparr>"
    by (auto simp: shutdown_signal_def split: sum.splits)
  have "chan_ok (Finished s)" using i by (auto simp: inv_defs)
  from chan_send_Inr[OF c(1) this] show ?thesis using i l AtSignal unfolding c(2,3)
    by (auto simp: inv_defs aux_defs)
next
  case Exited
  with st show ?thesis by simp
qed

lemma loop_step_loops: "loop_step p s = Inr (p', s') \<Longrightarrow> loops s' = loops s"
proof (cases p)
  case (Writing x outs)
  assume st: "loop_step p s = Inr (p', s')"
  show ?thesis
  proof (cases outs)
    case Nil
    with st Writing show ?thesis by auto
  next
    case (Cons out rest)
    with st Writing show ?thesis
      by (cases "writer s")
        (auto simp: after_write_def blockingOutputWriter_def nonBlockingOutputWriter_def
          split: sum.splits fault.splits dest!: send_to_Inr)
  qed
qed (auto simp: RunStep_recv_def RunStep_snapshot_def shutdown_close_def shutdown_signal_def
      after_write_def split: list.splits if_splits sum.splits dest!: send_to_Inr)

lemma pc_inv_tick: "pc_inv (tick p) s = pc_inv p s"
  by (cases p) simp_all

lemma inv_src_update:
  assumes "sound s" "\<not> sclosed (src s)"
  shows "sound (s\<lparr>src := sr\<rparr>)"
proof -
  have "pc_inv p (s\<lparr>src := sr\<rparr>)" if "pc_inv p s" for p
    using that assms(2) by (cases p) (auto simp: aux_defs window_def)
  then show ?thesis using assms(1) by (auto simp: inv_defs aux_defs split: list.splits)
qed

lemma inv_exec:
  assumes i: "sound s" and e: "exec e s = Inr s'"
  shows "sound s'"
proof (cases e)
  case (EvAddOutput nm bf)
  with e obtain h where "AddOutput nm bf s = Inr (h, s')"
    by (cases "AddOutput nm bf s") auto
  with i show ?thesis by (rule inv_AddOutput)
next
  case EvStart
  with e i show ?thesis by (auto intro: inv_Start)
next
  case (EvLoop k)
  with e obtain p' s1 where k: "k < length (loops s)" "loop_step (loops s ! k) s = Inr (p', s1)"
    "s' = s1\<lparr>loops := (loops s1)[k := p']\<rparr>"
    by (auto split: if_splits sum.splits)
  from inv_one_loop[OF i k(1)] have l: "k = 0" "loops s = [loops s ! 0]" by auto
  have i1: "sound (s1\<lparr>loops := [p']\<rparr>)" using i l(2) k(2)[unfolded l(1)] by (rule inv_loop_step)
  have "loops s1 = [loops s ! 0]" using loop_step_loops[OF k(2)] l(2) by simp
  then have "(loops s1)[k := p'] = [p']" using l(1) by (metis list_update_code(2))
  with i1 k(3) show ?thesis by simp
next
  case (EvKill k)
  with e obtain p' where k: "k < length (loops s)" "kill_step (loops s ! k) = Inr p'"
    "s' = s\<lparr>loops := (loops s)[k := p']\<rparr>"
    by (auto split: if_splits sum.splits)
  from inv_one_loop[OF i k(1)] have l: "k = 0" "loops s = [loops s ! 0]" by auto
  from k(2) l(1) obtain x out rest where q: "loops s ! 0 = InSelect x out rest 0" "p' = Writing x rest"
    by (cases "loops s ! 0") (auto split: if_splits)
  have "pc_inv (InSelect x out rest 0) s" using i l(2) q(1) by (auto simp: inv_defs split: list.splits)
  then have "pc_inv p' s" unfolding q(2) by (auto dest: window_Cons)
  then have "sound (s\<lparr>loops := [p']\<rparr>)" using i l(2) q by (intro inv_pc_change[where p = "loops s ! 0"]) auto
  moreover have "(loops s)[k := p'] = [p']" using l by (metis list_update_code(2))
  ultimately show ?thesis using k(3) by simp
next
  case EvTick
  with e have s': "s' = s\<lparr>loops := map tick (loops s)\<rparr>" by simp
  have f: "pc_inv p (s\<lparr>loops := ls\<rparr>) = pc_inv p s" for p ls
    by (rule pc_inv_frame) simp_all
  have t: "tick p = AtSignal \<longleftrightarrow> p = AtSignal" "tick p = Exited \<longleftrightarrow> p = Exited" for p :: "'a pc"
    by (cases p; simp)+
  show ?thesis using i unfolding s'
    by (auto simp: inv_defs f pc_inv_tick t open_all_def split: list.splits)
next
  case EvWait
  have f: "pc_inv p (s\<lparr>Finished := c\<rparr>) = pc_inv p s" for p c
    by (rule pc_inv_frame) simp_all
  from EvWait e i show ?thesis
    by (auto simp: WaitUntilFinished_def inv_defs f aux_defs chan_recv_props split: list.splits)
next
  case (EvRecv a)
  with e have a: "a < length (chans s)" "s' = s\<lparr>chans := (chans s)[a := chan_recv (chans s ! a)]\<rparr>"
    by (auto split: if_splits)
  have "chan_ok (chans s ! a)" using i a(1) by (auto simp: inv_defs)
  then show ?thesis unfolding a(2) using i a(1)
    by (intro inv_chan_update) (simp_all add: chan_recv_props)
next
  case (EvPush x)
  with e i show ?thesis by (auto split: if_splits intro: inv_src_update)
next
  case EvCloseSrc
  with e i show ?thesis by (auto split: if_splits intro: inv_src_update)
qed

lemma inv_run: "sound s \<Longrightarrow> run es s = Inr s' \<Longrightarrow> sound s'"
  by (induction es arbitrary: s) (auto split: sum.splits dest: inv_exec)

section \<open>Reachable states\<close>

lemma chan_send_can: "\<not> closed c \<Longrightarrow> can_send c \<Longrightarrow> \<exists>c'. chan_send x c = Inr c'"
  by (auto simp: chan_send_def can_send_def)

lemma inv_boot: "constructed m \<Longrightarrow> sound (boot L m)"
  unfolding constructed_def using inv_boot_blocking inv_boot_nonblocking by metis

lemma inv_reach: "constructed m \<Longrightarrow> run es (boot L m) = Inr s \<Longrightarrow> sound s"
  using inv_boot inv_run by blast

lemma run_append:
  "run (es @ es') s = (case run es s of Inl f \<Rightarrow> Inl f | Inr s1 \<Rightarrow> run es' s1)"
  by (induction es arbitrary: s) (auto split: sum.splits)

lemma outputs_closed_iff:
  "heap_inv s \<Longrightarrow> outputs_closed s = all_closed s"
proof -
  assume h: "heap_inv s"
  then have d: "map dst (outputs s) = [0..<length (chans s)]" by (simp add: heap_inv_def)
  have "outputs_closed s = (\<forall>a \<in> set (map dst (outputs s)). a < length (chans s) \<and> closed (chans s ! a))"
    by (auto simp: outputs_closed_def list_all_iff)
  also have "\<dots> = (\<forall>a < length (chans s). closed (chans s ! a))" unfolding d by auto
  also have "\<dots> = all_closed s" by (simp add: all_closed_def all_set_conv_all_nth)
  finally show ?thesis .
qed

section \<open>Shutdown\<close>

text \<open>
  Claim C10. Both constructors make \<^verbatim>\<open>Finished\<close> with capacity one, and in every
  reachable state the send on \<^verbatim>\<open>Finished\<close> at the end of \<^verbatim>\<open>shutdown\<close> can
  proceed at once, whether or not anyone has called \<^verbatim>\<open>WaitUntilFinished\<close>: from
  the state before the send one step of the goroutine reaches \<open>Exited\<close> with the value
  sent and every registered output closed, and from the state before \<^verbatim>\<open>shutdown\<close>
  takes the lock two steps do.
\<close>

theorem shutdown_signal_never_blocks:
  assumes "constructed m" "run es (boot L m) = Inr s"
  shows "cap (Finished s) = 1 \<and>
    (loops s = [AtSignal] \<longrightarrow>
       (\<exists>s'. exec (EvLoop 0) s = Inr s' \<and> loops s' = [Exited] \<and> signalled s' \<and> outputs_closed s')) \<and>
    (loops s = [AtShutdown] \<longrightarrow>
       (\<exists>s'. run [EvLoop 0, EvLoop 0] s = Inr s' \<and> loops s' = [Exited] \<and> signalled s' \<and> outputs_closed s'))"
proof -
  have i: "sound s" using assms by (rule inv_reach)
  have sig: "\<exists>s'. exec (EvLoop 0) t = Inr s' \<and> loops s' = [Exited] \<and> signalled s' \<and> outputs_closed s'"
    if t: "sound t" "loops t = [AtSignal]" for t :: "'a world"
  proof -
    from t have f: "delivered (Finished t) = []" "\<not> closed (Finished t)" "cap (Finished t) = 1"
      by (auto simp: inv_defs)
    then have "buf (Finished t) = []" by (simp add: delivered_def)
    with f have "can_send (Finished t)" by (simp add: can_send_def)
    with f obtain c where c: "chan_send True (Finished t) = Inr c"
      using chan_send_can[of "Finished t" True] by auto
    let ?s' = "t\<lparr>Finished := c, lock := False, loops := [Exited]\<rparr>"
    have e: "exec (EvLoop 0) t = Inr ?s'" using t(2) c by (simp add: shutdown_signal_def)
    have i': "sound ?s'" using t(1) e by (rule inv_exec)
    then have f': "fin_inv ?s'" and h': "heap_inv ?s'" by (simp_all add: sound_def)
    from f' have sg: "signalled ?s'" by (simp add: fin_inv_def signalled_def)
    have "all_closed t" using t by (auto simp: inv_defs)
    then have "all_closed ?s'" by (simp add: all_closed_def)
    then have oc: "outputs_closed ?s'" using outputs_closed_iff[OF h'] by simp
    show ?thesis by (intro exI[of _ ?s'] conjI e sg oc) simp
  qed
  have shut: "\<exists>s'. run [EvLoop 0, EvLoop 0] s = Inr s' \<and> loops s' = [Exited] \<and> signalled s' \<and> outputs_closed s'"
    if l: "loops s = [AtShutdown]"
  proof -
    have op: "\<forall>c \<in> set (chans s). \<not> closed c" using i l by (auto simp: inv_defs aux_defs)
    have ds: "map dst (outputs s) = [0..<length (chans s)]" "\<not> lock s" using i l by (auto simp: inv_defs)
    let ?t = "s\<lparr>lock := True, chans := map (\<lambda>c. c\<lparr>closed := True, rwait := 0\<rparr>) (chans s), loops := [AtSignal]\<rparr>"
    have e: "exec (EvLoop 0) s = Inr ?t"
      using l ds by (simp add: shutdown_close_def close_all_whole[OF op])
    have "sound ?t" using i e by (rule inv_exec)
    from sig[OF this] e show ?thesis by auto
  qed
  have "cap (Finished s) = 1" using i by (auto simp: inv_defs)
  with sig[OF i] shut show ?thesis by blast
qed


theorem shutdown_signal_never_blocks_witness:
  "constructed (NewBlockingPairMux \<lparr>queue = ([]::nat list), sclosed = True\<rparr>) \<and>
   (\<exists>s. run [EvStart, EvLoop 0, EvLoop 0] (boot limit64 (NewBlockingPairMux \<lparr>queue = ([]::nat list), sclosed = True\<rparr>)) = Inr s \<and>
      loops s = [AtSignal] \<and> cap (Finished s) = 1 \<and>
      (\<exists>s'. exec (EvLoop 0) s = Inr s' \<and> loops s' = [Exited] \<and> signalled s' \<and> outputs_closed s'))"
proof -
  let ?m = "NewBlockingPairMux \<lparr>queue = ([]::nat list), sclosed = True\<rparr>"
  have c: "constructed ?m" by (simp add: constructed_def NewBlockingPairMux_def)
  obtain s where r: "run [EvStart, EvLoop 0, EvLoop 0] (boot limit64 ?m) = Inr s" and l: "loops s = [AtSignal]"
    by (simp add: boot_def NewBlockingPairMux_def world.defs PairMux.defs Start_def RunStep_recv_def shutdown_close_def new_chan_def)
  from shutdown_signal_never_blocks[OF c r] l r c show ?thesis by blast
qed

lemma invoke_pc:
  "invoke w x out rest s = Inr (p', s') \<Longrightarrow>
     (p' = Writing x rest \<or> (\<exists>d. p' = InSelect x out rest (nat d))) \<and> Finished s' = Finished s \<and>
     outputs s' = outputs s \<and> writer s' = writer s \<and> src s' = src s \<and> lock s' = lock s \<and>
     started s' = started s \<and> length (chans s') = length (chans s)"
  by (cases w)
    (auto simp: after_write_def blockingOutputWriter_def nonBlockingOutputWriter_def
      timeoutOutputWriter_enter_def split: sum.splits fault.splits dest!: send_to_Inr)

lemma loop_step_Exited:
  "loop_step p s = Inr (p', s') \<Longrightarrow> p' = Exited \<Longrightarrow> p = AtSignal \<and> chans s' = chans s \<and> outputs s' = outputs s"
proof (cases p)
  case (Writing x outs)
  assume "loop_step p s = Inr (p', s')" "p' = Exited"
  with Writing show ?thesis by (cases outs) (auto dest: invoke_pc)
qed (auto simp: RunStep_recv_def RunStep_snapshot_def shutdown_close_def shutdown_signal_def
      after_write_def split: list.splits if_splits sum.splits)

lemma exited_from:
  assumes i: "sound s" and e: "exec e s = Inr s'" and x: "loops s' = [Exited]" and n: "loops s \<noteq> [Exited]"
  shows "loops s = [AtSignal] \<and> e = EvLoop 0 \<and> chans s' = chans s \<and> outputs s' = outputs s"
proof (cases e)
  case (EvAddOutput nm bf)
  with e x n show ?thesis by (auto simp: AddOutput_def split: sum.splits if_splits)
next
  case EvStart
  with e x n show ?thesis by (auto simp: Start_def split: if_splits)
next
  case (EvLoop k)
  with e obtain p' s1 where k: "k < length (loops s)" "loop_step (loops s ! k) s = Inr (p', s1)"
    "s' = s1\<lparr>loops := (loops s1)[k := p']\<rparr>"
    by (auto split: if_splits sum.splits)
  from inv_one_loop[OF i k(1)] have l: "k = 0" "loops s = [loops s ! 0]" by auto
  have "loops s1 = [loops s ! 0]" using loop_step_loops[OF k(2)] l(2) by simp
  then have "(loops s1)[k := p'] = [p']" using l(1) by (metis list_update_code(2))
  with k(3) x have "p' = Exited" by simp
  from loop_step_Exited[OF k(2) this]
  have q: "loops s ! k = AtSignal" "chans s1 = chans s" "outputs s1 = outputs s" by auto
  have "chans s' = chans s1" "outputs s' = outputs s1" unfolding k(3) by simp_all
  with q l EvLoop show ?thesis by simp
next
  case (EvKill k)
  with e obtain p' where k: "k < length (loops s)" "kill_step (loops s ! k) = Inr p'"
    "s' = s\<lparr>loops := (loops s)[k := p']\<rparr>"
    by (auto split: if_splits sum.splits)
  from inv_one_loop[OF i k(1)] have l: "k = 0" "loops s = [loops s ! 0]" by auto
  have "(loops s)[k := p'] = [p']" using l by (metis list_update_code(2))
  with k(3) x have "p' = Exited" by simp
  with k(2) show ?thesis by (cases "loops s ! k") (auto split: if_splits)
next
  case EvTick
  have t: "tick p = Exited \<longleftrightarrow> p = Exited" for p :: "'a pc" by (cases p) simp_all
  from EvTick e x n show ?thesis by (cases "loops s") (auto simp: t)
next
  case EvWait
  with e x n show ?thesis by (auto simp: WaitUntilFinished_def)
next
  case (EvRecv a)
  with e x n show ?thesis by (auto split: if_splits)
next
  case (EvPush y)
  with e x n show ?thesis by (auto split: if_splits)
next
  case EvCloseSrc
  with e x n show ?thesis by (auto split: if_splits)
qed


lemma exited_stable:
  assumes i: "sound s" and e: "exec e s = Inr s'" and x: "loops s = [Exited]"
  shows "loops s' = [Exited]"
proof -
  have "started s" using i x by (simp add: sound_def loops_inv_def)
  with e x show ?thesis
    by (cases e) (auto simp: AddOutput_def Start_def WaitUntilFinished_def split: sum.splits if_splits)
qed

lemma exec_frame:
  "exec e s = Inr s' \<Longrightarrow> writer s' = writer s \<and> timeout s' = timeout s \<and> blocking s' = blocking s \<and>
   limit s' = limit s"
proof (cases e)
  case (EvLoop k)
  assume e: "exec e s = Inr s'"
  with EvLoop obtain p' s1 where k: "loop_step (loops s ! k) s = Inr (p', s1)"
    "s' = s1\<lparr>loops := (loops s1)[k := p']\<rparr>"
    by (auto split: if_splits sum.splits)
  have "writer s1 = writer s \<and> timeout s1 = timeout s \<and> blocking s1 = blocking s \<and>
    limit s1 = limit s"
  proof (cases "loops s ! k")
    case (Writing x outs)
    with k(1) show ?thesis
      by (cases outs; cases "writer s")
        (auto simp: after_write_def blockingOutputWriter_def nonBlockingOutputWriter_def
          split: sum.splits fault.splits dest!: send_to_Inr)
  qed (use k(1) in \<open>auto simp: RunStep_recv_def RunStep_snapshot_def shutdown_close_def shutdown_signal_def
      after_write_def split: list.splits if_splits sum.splits dest!: send_to_Inr\<close>)
  then show ?thesis unfolding k(2) by simp
qed (auto simp: AddOutput_def Start_def WaitUntilFinished_def split: sum.splits if_splits)

lemma run_frame:
  "run es s = Inr s' \<Longrightarrow> writer s' = writer s \<and> timeout s' = timeout s \<and> blocking s' = blocking s \<and>
   limit s' = limit s"
proof (induction es arbitrary: s)
  case Nil
  then show ?case by simp
next
  case (Cons e es)
  then obtain s1 where s1: "exec e s = Inr s1" "run es s1 = Inr s'"
    by (auto split: sum.splits)
  from exec_frame[OF s1(1)] Cons.IH[OF s1(2)] show ?case by simp
qed

lemma boot_sel:
  "writer (boot L m) = writer m" "timeout (boot L m) = timeout m" "blocking (boot L m) = blocking m"
  "Finished (boot L m) = Finished m" "outputs (boot L m) = outputs m" "lock (boot L m) = lock m"
  "src (boot L m) = src m" "started (boot L m) = started m"
  "chans (boot L m) = []" "loops (boot L m) = []" "readlog (boot L m) = []" "limit (boot L m) = L"
  by (simp_all add: boot_def world.defs PairMux.defs)


lemmas eval_defs = boot_def NewBlockingPairMux_def NewNonBlockingPairMux_def world.defs
  PairMux.defs Start_def RunStep_recv_def RunStep_snapshot_def shutdown_close_def
  shutdown_signal_def new_chan_def make_chan_def AddOutput_def WaitUntilFinished_def
  chan_send_def chan_recv_def chan_close_def send_to_def blockingOutputWriter_def
  nonBlockingOutputWriter_def after_write_def timeoutOutputWriter_enter_def
  makeTimeoutOutputWriter_def constructed_def limit64_def


section \<open>The completion signal\<close>

text \<open>
  Claim C5. In every reachable state at most one value has ever been sent on
  \<^verbatim>\<open>Finished\<close>, and once the goroutine has exited exactly one has. A step that sends a
  value on \<^verbatim>\<open>Finished\<close> is the last step of \<^verbatim>\<open>shutdown\<close>: it is taken by the
  goroutine with the lock held, nothing had been sent before it, and every registered
  output's destination is closed before and after it.
\<close>
theorem completion_signal_once:
  assumes "constructed m" "run es (boot L m) = Inr s" "exec e s = Inr s'"
  shows "length (delivered (Finished s)) \<le> 1 \<and> length (delivered (Finished s')) \<le> 1 \<and>
    (loops s' = [Exited] \<longrightarrow> delivered (Finished s') = [True]) \<and>
    (delivered (Finished s') \<noteq> delivered (Finished s) \<longrightarrow>
       delivered (Finished s) = [] \<and> delivered (Finished s') = [True] \<and>
       e = EvLoop 0 \<and> loops s = [AtSignal] \<and> loops s' = [Exited] \<and>
       outputs_closed s \<and> outputs_closed s')"
proof -
  have i: "sound s" using assms(1,2) by (rule inv_reach)
  have i': "sound s'" using i assms(3) by (rule inv_exec)
  have f: "delivered (Finished s) = (if loops s = [Exited] then [True] else [])"
    using i by (simp add: sound_def fin_inv_def)
  have f': "delivered (Finished s') = (if loops s' = [Exited] then [True] else [])"
    using i' by (simp add: sound_def fin_inv_def)
  have ch: "loops s = [AtSignal] \<and> e = EvLoop 0 \<and> outputs_closed s \<and> outputs_closed s'"
    if x: "loops s' = [Exited]" "loops s \<noteq> [Exited]"
  proof -
    from exited_from[OF i assms(3) x]
    have q: "loops s = [AtSignal]" "e = EvLoop 0" "chans s' = chans s" "outputs s' = outputs s" by auto
    have "all_closed s" using i q(1) by (auto simp: inv_defs)
    moreover from this q(3) have "all_closed s'" by (simp add: all_closed_def)
    ultimately have "outputs_closed s" "outputs_closed s'"
      using outputs_closed_iff[of s] outputs_closed_iff[of s'] i i' by (simp_all add: sound_def)
    with q show ?thesis by simp
  qed
  have "loops s' = [Exited]" if "loops s = [Exited]"
    using exited_stable[OF i assms(3) that] .
  then show ?thesis using f f' ch by (auto split: if_splits)
qed
theorem completion_signal_once_witness:
  "constructed (NewBlockingPairMux \<lparr>queue = ([]::nat list), sclosed = True\<rparr>) \<and>
   (\<exists>s s'. run [EvAddOutput ''a'' 1, EvStart, EvLoop 0, EvLoop 0]
              (boot limit64 (NewBlockingPairMux \<lparr>queue = ([]::nat list), sclosed = True\<rparr>)) = Inr s \<and>
      exec (EvLoop 0) s = Inr s' \<and>
      delivered (Finished s') \<noteq> delivered (Finished s) \<and> loops s' = [Exited] \<and>
      delivered (Finished s) = [] \<and> delivered (Finished s') = [True] \<and>
      loops s = [AtSignal] \<and> outputs_closed s \<and> outputs_closed s')"
proof -
  let ?m = "NewBlockingPairMux \<lparr>queue = ([]::nat list), sclosed = True\<rparr>"
  have c: "constructed ?m" by (simp add: eval_defs)
  have "\<exists>s s'. run [EvAddOutput ''a'' 1, EvStart, EvLoop 0, EvLoop 0] (boot limit64 ?m) = Inr s \<and>
      exec (EvLoop 0) s = Inr s' \<and> loops s = [AtSignal] \<and> loops s' = [Exited] \<and>
      delivered (Finished s) = []"
    by (simp add: eval_defs delivered_def)
  then obtain s s' where r: "run [EvAddOutput ''a'' 1, EvStart, EvLoop 0, EvLoop 0] (boot limit64 ?m) = Inr s"
    and e: "exec (EvLoop 0) s = Inr s'"
    and l: "loops s = [AtSignal]" "loops s' = [Exited]" "delivered (Finished s) = []"
    by iprover
  note th = completion_signal_once[OF c r e]
  from th l(2) have d: "delivered (Finished s') = [True]" by blast
  with l(3) have n: "delivered (Finished s') \<noteq> delivered (Finished s)" by simp
  with th have o: "outputs_closed s" "outputs_closed s'" by blast+
  show ?thesis using c r e n l d o by blast
qed


text \<open>
  Claim C1, as the code has it. \<^verbatim>\<open>shutdown\<close> sends one value on \<^verbatim>\<open>Finished\<close> and
  never closes it, so \<^verbatim>\<open>WaitUntilFinished\<close> is a hand-off of that one value: over the
  whole life of a mux at most one call returns, none returns before the value is sent,
  and once it is sent exactly one of the callers (if there is any, whether it called
  before or after \<^verbatim>\<open>Start\<close>) has returned. Every other caller stays parked.
\<close>
theorem wait_is_single_handoff:
  assumes "constructed m" "run es (boot L m) = Inr s"
  shows "returned s \<le> 1 \<and> (\<not> signalled s \<longrightarrow> returned s = 0) \<and>
         (signalled s \<and> 0 < returned s + waiting s \<longrightarrow> returned s = 1)"
proof -
  have i: "sound s" using assms by (rule inv_reach)
  then have f: "chan_ok (Finished s)" "delivered (Finished s) = (if loops s = [Exited] then [True] else [])"
    by (simp_all add: sound_def fin_inv_def)
  then show ?thesis
    by (cases "taken (Finished s)"; cases "buf (Finished s)")
      (auto simp: returned_def waiting_def signalled_def delivered_def chan_ok_def split: if_splits)
qed

theorem wait_is_single_handoff_witness:
  "constructed (NewBlockingPairMux \<lparr>queue = ([]::nat list), sclosed = True\<rparr>) \<and>
   (\<exists>s. run [EvWait, EvStart, EvLoop 0, EvLoop 0, EvLoop 0]
              (boot limit64 (NewBlockingPairMux \<lparr>queue = ([]::nat list), sclosed = True\<rparr>)) = Inr s \<and>
      signalled s \<and> 0 < returned s + waiting s \<and> returned s = 1)"
proof -
  let ?m = "NewBlockingPairMux \<lparr>queue = ([]::nat list), sclosed = True\<rparr>"
  have c: "constructed ?m" by (simp add: eval_defs)
  obtain s where r: "run [EvWait, EvStart, EvLoop 0, EvLoop 0, EvLoop 0] (boot limit64 ?m) = Inr s"
    and l: "signalled s" "0 < returned s + waiting s"
    by (simp add: eval_defs signalled_def returned_def waiting_def delivered_def)
  from wait_is_single_handoff[OF c r] l r c show ?thesis by blast
qed

text \<open>
  Two callers wait, the mux is started and the source is closed: the goroutine has exited
  and the value has been sent, one caller has returned and the other is still parked.
\<close>

theorem wait_broadcast_counterexample:
  "\<exists>s. run [EvWait, EvWait, EvStart, EvCloseSrc, EvLoop 0, EvLoop 0, EvLoop 0]
          (boot limit64 (NewBlockingPairMux \<lparr>queue = ([]::nat list), sclosed = False\<rparr>)) = Inr s \<and>
       loops s = [Exited] \<and> signalled s \<and> returned s = 1 \<and> waiting s = 1"
  by (simp add: eval_defs signalled_def returned_def waiting_def delivered_def)

lemma signal_step:
  assumes "sound t" "loops t = [AtSignal]"
  shows "\<exists>c. chan_send True (Finished t) = Inr c \<and>
           exec (EvLoop 0) t = Inr (t\<lparr>Finished := c, lock := False, loops := [Exited]\<rparr>)"
proof -
  from assms have f: "delivered (Finished t) = []" "\<not> closed (Finished t)" "cap (Finished t) = 1"
    by (auto simp: inv_defs)
  then have "buf (Finished t) = []" by (simp add: delivered_def)
  with f have "can_send (Finished t)" by (simp add: can_send_def)
  with f obtain c where c: "chan_send True (Finished t) = Inr c"
    using chan_send_can[of "Finished t" True] by auto
  then show ?thesis using assms(2) by (simp add: shutdown_signal_def)
qed

lemma writing_facts:
  assumes "sound s" "loops s = [Writing x (out # rest)] \<or> loops s = [InSelect x out rest t]"
  shows "dst out < length (chans s) \<and> \<not> closed (chans s ! dst out) \<and> chan_ok (chans s ! dst out) \<and>
         dst out \<notin> dst ` set rest \<and> \<not> lock s"
proof -
  from assms have w: "open_all s" "window (out # rest) s" "\<not> lock s"
    by (auto simp: inv_defs)
  from window_Cons[OF w(2)] have d: "dst out < length (chans s)" "dst out \<notin> dst ` set rest" by auto
  then have "chans s ! dst out \<in> set (chans s)" by simp
  with w(1) assms(1) d w(3) show ?thesis by (auto simp: open_all_def inv_defs)
qed

section \<open>Delivery strategies\<close>

text \<open>
  Claim C6. A mux made by \<^verbatim>\<open>NewNonBlockingPairMux\<close> with timeout zero is about to
  write item \<open>x\<close> to output \<open>out\<close>, whose destination can accept no send at that
  moment (no parked receiver, no room in the buffer). Then \<^verbatim>\<open>nonBlockingOutputWriter\<close>
  returns with the state unchanged (the item is not delivered), the goroutine's step
  does not block and moves on to the outputs after \<open>out\<close>, none of which is \<open>out\<close>
  again (no retry), and after the last output the next step is back at the receive from
  the source.
\<close>

theorem nonblocking_drops_on_full:
  assumes "run es (boot L (NewNonBlockingPairMux sr 0)) = Inr s"
    and "loops s = [Writing x (out # rest)]"
    and "full (chans s ! dst out)"
  shows "nonBlockingOutputWriter out x s = Inr s \<and>
         exec (EvLoop 0) s = Inr (s\<lparr>loops := [Writing x rest]\<rparr>) \<and>
         dst out \<notin> dst ` set rest \<and>
         (rest = [] \<longrightarrow> run [EvLoop 0, EvLoop 0] s = Inr (s\<lparr>loops := [AtRead]\<rparr>))"
proof -
  have c: "constructed (NewNonBlockingPairMux sr 0)"
    by (simp add: constructed_def NewNonBlockingPairMux_def)
  have i: "sound s" using c assms(1) by (rule inv_reach)
  have w: "writer s = NonBlockingWriter"
    using run_frame[OF assms(1)] by (simp add: boot_sel NewNonBlockingPairMux_def)
  from writing_facts[OF i, of x out rest] assms(2)
  have d: "dst out < length (chans s)" "\<not> closed (chans s ! dst out)" "dst out \<notin> dst ` set rest"
    by auto
  have "chan_send x (chans s ! dst out) = Inl Blocks"
    using d(2) assms(3) by (simp add: chan_send_Blocks)
  then have n: "nonBlockingOutputWriter out x s = Inr s"
    using d(1) by (simp add: nonBlockingOutputWriter_def send_to_def)
  then have e: "exec (EvLoop 0) s = Inr (s\<lparr>loops := [Writing x rest]\<rparr>)"
    using assms(2) w by (simp add: after_write_def)
  then have "run [EvLoop 0, EvLoop 0] s = Inr (s\<lparr>loops := [AtRead]\<rparr>)" if "rest = []"
    using that by simp
  with n e d(3) show ?thesis by blast
qed

theorem nonblocking_drops_on_full_witness:
  "\<exists>s. run [EvAddOutput ''a'' 0, EvStart, EvLoop 0, EvLoop 0]
          (boot limit64 (NewNonBlockingPairMux \<lparr>queue = [5::nat], sclosed = False\<rparr> 0)) = Inr s \<and>
       loops s = [Writing 5 [\<lparr>name = ''a'', dst = 0\<rparr>]] \<and>
       full (chans s ! dst \<lparr>name = ''a'', dst = 0\<rparr>) \<and>
       nonBlockingOutputWriter \<lparr>name = ''a'', dst = 0\<rparr> 5 s = Inr s \<and>
       exec (EvLoop 0) s = Inr (s\<lparr>loops := [Writing 5 []]\<rparr>) \<and>
       run [EvLoop 0, EvLoop 0] s = Inr (s\<lparr>loops := [AtRead]\<rparr>)"
proof -
  have "\<exists>s. run [EvAddOutput ''a'' 0, EvStart, EvLoop 0, EvLoop 0]
          (boot limit64 (NewNonBlockingPairMux \<lparr>queue = [5::nat], sclosed = False\<rparr> 0)) = Inr s \<and>
       loops s = [Writing 5 [\<lparr>name = ''a'', dst = 0\<rparr>]] \<and>
       full (chans s ! dst \<lparr>name = ''a'', dst = 0\<rparr>)"
    by (simp add: eval_defs full_def can_send_def)
  then obtain s where r: "run [EvAddOutput ''a'' 0, EvStart, EvLoop 0, EvLoop 0]
          (boot limit64 (NewNonBlockingPairMux \<lparr>queue = [5::nat], sclosed = False\<rparr> 0)) = Inr s"
    and l: "loops s = [Writing 5 [\<lparr>name = ''a'', dst = 0\<rparr>]]"
    and f: "full (chans s ! dst \<lparr>name = ''a'', dst = 0\<rparr>)"
    by iprover
  note th = nonblocking_drops_on_full[OF r l f]
  from th r l f show ?thesis by blast
qed


text \<open>
  Claim C8. \<^verbatim>\<open>NewNonBlockingPairMux(src, 0)\<close> stores \<^verbatim>\<open>nonBlockingOutputWriter\<close> in
  \<^verbatim>\<open>writer\<close>, the field never changes, and so in every reachable state the call
  \<^verbatim>\<open>m.writer(output, item)\<close> of the range loop is the call of
  \<^verbatim>\<open>nonBlockingOutputWriter\<close> on that output and item.
\<close>

theorem zero_timeout_is_nonblocking:
  assumes "run es (boot L (NewNonBlockingPairMux sr 0)) = Inr s"
  shows "writer (NewNonBlockingPairMux sr 0) = NonBlockingWriter \<and>
    writer s = NonBlockingWriter \<and>
    invoke (writer s) x out rest s = after_write x rest (nonBlockingOutputWriter out x s) \<and>
    loop_step (Writing x (out # rest)) s = after_write x rest (nonBlockingOutputWriter out x s)"
proof -
  have w: "writer (NewNonBlockingPairMux sr 0) = NonBlockingWriter"
    by (simp add: NewNonBlockingPairMux_def)
  then have "writer s = NonBlockingWriter"
    using run_frame[OF assms] by (simp add: boot_sel)
  with w show ?thesis by simp
qed

theorem zero_timeout_is_nonblocking_witness:
  "\<exists>s. run [EvStart] (boot limit64 (NewNonBlockingPairMux \<lparr>queue = [5::nat], sclosed = False\<rparr> 0)) = Inr s \<and>
       writer s = NonBlockingWriter \<and>
       loop_step (Writing 5 [\<lparr>name = ''a'', dst = 0\<rparr>]) s =
         after_write 5 [] (nonBlockingOutputWriter \<lparr>name = ''a'', dst = 0\<rparr> 5 s)"
proof -
  have "\<exists>s. run [EvStart] (boot limit64 (NewNonBlockingPairMux \<lparr>queue = [5::nat], sclosed = False\<rparr> 0)) = Inr s"
    by (simp add: eval_defs)
  then obtain s where
    r: "run [EvStart] (boot limit64 (NewNonBlockingPairMux \<lparr>queue = [5::nat], sclosed = False\<rparr> 0)) = Inr s"
    by iprover
  note th = zero_timeout_is_nonblocking[OF r, of 5 "\<lparr>name = ''a'', dst = 0\<rparr>" "[]"]
  from th r show ?thesis by blast
qed






lemma loop_step_timer: "loop_step p s = Inr (p', s') \<Longrightarrow> timer_ok (writer s) p'"
proof (cases p)
  case (Writing x outs)
  assume st: "loop_step p s = Inr (p', s')"
  show ?thesis
  proof (cases outs)
    case Nil
    with st Writing show ?thesis by (auto simp: timer_ok_def)
  next
    case (Cons out rest)
    with st Writing show ?thesis
      by (cases "writer s")
        (auto simp: after_write_def timeoutOutputWriter_enter_def timer_ok_def split: sum.splits)
  qed
qed (auto simp: RunStep_recv_def RunStep_snapshot_def shutdown_close_def shutdown_signal_def
      after_write_def timer_ok_def split: list.splits if_splits sum.splits)

lemma timer_ok_tick: "timer_ok w p \<Longrightarrow> timer_ok w (tick p)"
  by (cases p) (auto simp: timer_ok_def split: writer_fn.splits)

lemma list_all_update: "list_all P xs \<Longrightarrow> P y \<Longrightarrow> list_all P (xs[k := y])"
  by (auto simp: list_all_iff dest!: set_update_subset_insert[THEN subsetD])

lemma timer_inv_exec:
  assumes t: "timer_inv s" and e: "exec e s = Inr s'"
  shows "timer_inv s'"
proof -
  have w: "writer s' = writer s" using exec_frame[OF e] by simp
  show ?thesis
  proof (cases e)
    case (EvLoop k)
    with e obtain p' s1 where k: "loop_step (loops s ! k) s = Inr (p', s1)"
      "s' = s1\<lparr>loops := (loops s1)[k := p']\<rparr>"
      by (auto split: if_splits sum.splits)
    have "loops s' = (loops s)[k := p']" using loop_step_loops[OF k(1)] k(2) by simp
    with t loop_step_timer[OF k(1)] w show ?thesis
      by (simp add: timer_inv_def list_all_update)
  next
    case (EvKill k)
    with e obtain p' where k: "kill_step (loops s ! k) = Inr p'" "s' = s\<lparr>loops := (loops s)[k := p']\<rparr>"
      by (auto split: if_splits sum.splits)
    from k(1) have "timer_ok (writer s) p'"
      by (cases "loops s ! k") (auto simp: timer_ok_def split: if_splits)
    with t show ?thesis unfolding k(2) by (simp add: timer_inv_def list_all_update)
  next
    case EvTick
    with e t show ?thesis by (auto simp: timer_inv_def list_all_iff timer_ok_tick)
  qed (use e t in \<open>auto simp: timer_inv_def AddOutput_def Start_def WaitUntilFinished_def timer_ok_def
        split: sum.splits if_splits\<close>)
qed

lemma timer_inv_run: "timer_inv s \<Longrightarrow> run es s = Inr s' \<Longrightarrow> timer_inv s'"
  by (induction es arbitrary: s) (auto split: sum.splits dest: timer_inv_exec)

lemma run_ticks:
  "loops s = [InSelect x out rest t] \<Longrightarrow>
   run (replicate t EvTick) s = Inr (s\<lparr>loops := [InSelect x out rest 0]\<rparr>)"
proof (induction t arbitrary: s)
  case 0
  then show ?case by (metis replicate_0 run.simps(1) world.surjective world.update_convs(2))
next
  case (Suc t)
  let ?s1 = "s\<lparr>loops := [InSelect x out rest t]\<rparr>"
  have "exec EvTick s = Inr ?s1" using Suc.prems by simp
  moreover have "run (replicate t EvTick) ?s1 = Inr (?s1\<lparr>loops := [InSelect x out rest 0]\<rparr>)"
    by (rule Suc.IH) simp
  ultimately show ?case by simp
qed

text \<open>
  Claim C7. A mux made by \<^verbatim>\<open>NewNonBlockingPairMux\<close> with a duration \<open>d\<close> other than
  zero enters, for every write, a \<^verbatim>\<open>select\<close> with a fresh timer of \<open>nat d\<close> ticks.
  Inside it the timer has at most \<open>nat d\<close> ticks left, and once they have passed the
  \<^verbatim>\<open>kill\<close> case ends the attempt with nothing delivered, whatever the destination
  does; the send case blocks exactly while the destination is full and otherwise
  delivers the item.
\<close>

theorem timed_write_terminates:
  assumes "run es (boot L (NewNonBlockingPairMux sr d)) = Inr s" and "d \<noteq> 0"
  shows "(loops s = [Writing x (out # rest)] \<longrightarrow>
            exec (EvLoop 0) s = Inr (s\<lparr>loops := [InSelect x out rest (nat d)]\<rparr>)) \<and>
         (loops s = [InSelect x out rest t] \<longrightarrow>
            t \<le> nat d \<and>
            run (replicate t EvTick @ [EvKill 0]) s = Inr (s\<lparr>loops := [Writing x rest]\<rparr>) \<and>
            (full (chans s ! dst out) \<longrightarrow> exec (EvLoop 0) s = Inl Blocks) \<and>
            (can_send (chans s ! dst out) \<longrightarrow>
               (\<exists>s'. exec (EvLoop 0) s = Inr s' \<and> loops s' = [Writing x rest] \<and>
                     delivered (chans s' ! dst out) = delivered (chans s ! dst out) @ [x])))"
proof -
  have c: "constructed (NewNonBlockingPairMux sr d)"
    by (simp add: constructed_def NewNonBlockingPairMux_def)
  have i: "sound s" using c assms(1) by (rule inv_reach)
  have w: "writer s = TimeoutWriter d"
    using run_frame[OF assms(1)] assms(2)
    by (simp add: boot_sel NewNonBlockingPairMux_def makeTimeoutOutputWriter_def)
  have "timer_inv (boot L (NewNonBlockingPairMux sr d))" by (simp add: timer_inv_def boot_sel)
  then have ti: "timer_inv s" using assms(1) by (rule timer_inv_run)
  have enter: "exec (EvLoop 0) s = Inr (s\<lparr>loops := [InSelect x out rest (nat d)]\<rparr>)"
    if "loops s = [Writing x (out # rest)]"
    using that w by (simp add: timeoutOutputWriter_enter_def)
  have sel: "t \<le> nat d \<and>
            run (replicate t EvTick @ [EvKill 0]) s = Inr (s\<lparr>loops := [Writing x rest]\<rparr>) \<and>
            (full (chans s ! dst out) \<longrightarrow> exec (EvLoop 0) s = Inl Blocks) \<and>
            (can_send (chans s ! dst out) \<longrightarrow>
               (\<exists>s'. exec (EvLoop 0) s = Inr s' \<and> loops s' = [Writing x rest] \<and>
                     delivered (chans s' ! dst out) = delivered (chans s ! dst out) @ [x]))"
    if l: "loops s = [InSelect x out rest t]"
  proof -
    have t: "t \<le> nat d" using ti l w by (simp add: timer_inv_def timer_ok_def)
    have k: "run (replicate t EvTick @ [EvKill 0]) s = Inr (s\<lparr>loops := [Writing x rest]\<rparr>)"
      using run_ticks[OF l] by (simp add: run_append)
    from writing_facts[OF i, of x out rest t] l
    have d: "dst out < length (chans s)" "\<not> closed (chans s ! dst out)" "chan_ok (chans s ! dst out)"
      by auto
    have b: "exec (EvLoop 0) s = Inl Blocks" if "full (chans s ! dst out)"
    proof -
      have "chan_send x (chans s ! dst out) = Inl Blocks" using d(2) that by (simp add: chan_send_Blocks)
      then show ?thesis using l d(1) by (simp add: send_to_def after_write_def)
    qed
    have g: "\<exists>s'. exec (EvLoop 0) s = Inr s' \<and> loops s' = [Writing x rest] \<and>
                     delivered (chans s' ! dst out) = delivered (chans s ! dst out) @ [x]"
      if "can_send (chans s ! dst out)"
    proof -
      from chan_send_can[OF d(2) that] obtain c' where c': "chan_send x (chans s ! dst out) = Inr c'"
        by blast
      from chan_send_Inr[OF c' d(3)] have dl: "delivered c' = delivered (chans s ! dst out) @ [x]" by simp
      let ?s' = "s\<lparr>chans := (chans s)[dst out := c'], loops := [Writing x rest]\<rparr>"
      have "exec (EvLoop 0) s = Inr ?s'" using l d(1) c' by (simp add: send_to_def after_write_def)
      moreover have "delivered (chans ?s' ! dst out) = delivered (chans s ! dst out) @ [x]"
        using d(1) dl by simp
      ultimately show ?thesis by (intro exI[of _ ?s']) simp
    qed
    from t k b g show ?thesis by blast
  qed
  from enter sel show ?thesis by blast
qed
theorem timed_write_terminates_witness:
  "(2::int) \<noteq> 0 \<and>
   (\<exists>s. run [EvAddOutput ''a'' 0, EvStart, EvLoop 0, EvLoop 0]
          (boot limit64 (NewNonBlockingPairMux \<lparr>queue = [5::nat], sclosed = False\<rparr> 2)) = Inr s \<and>
      loops s = [Writing 5 [\<lparr>name = ''a'', dst = 0\<rparr>]] \<and>
      exec (EvLoop 0) s = Inr (s\<lparr>loops := [InSelect 5 \<lparr>name = ''a'', dst = 0\<rparr> [] (nat 2)]\<rparr>)) \<and>
   (\<exists>s. run [EvAddOutput ''a'' 0, EvStart, EvLoop 0, EvLoop 0, EvLoop 0, EvTick]
          (boot limit64 (NewNonBlockingPairMux \<lparr>queue = [5::nat], sclosed = False\<rparr> 2)) = Inr s \<and>
      loops s = [InSelect 5 \<lparr>name = ''a'', dst = 0\<rparr> [] 1] \<and>
      full (chans s ! dst \<lparr>name = ''a'', dst = 0\<rparr>) \<and>
      exec (EvLoop 0) s = Inl Blocks \<and>
      run (replicate 1 EvTick @ [EvKill 0]) s = Inr (s\<lparr>loops := [Writing 5 []]\<rparr>))"
proof -
  let ?m = "NewNonBlockingPairMux \<lparr>queue = [5::nat], sclosed = False\<rparr> 2"
  have d: "(2::int) \<noteq> 0" by simp
  have "\<exists>s. run [EvAddOutput ''a'' 0, EvStart, EvLoop 0, EvLoop 0] (boot limit64 ?m) = Inr s \<and>
      loops s = [Writing 5 [\<lparr>name = ''a'', dst = 0\<rparr>]]"
    by (simp add: eval_defs)
  then obtain s where r: "run [EvAddOutput ''a'' 0, EvStart, EvLoop 0, EvLoop 0] (boot limit64 ?m) = Inr s"
    and l: "loops s = [Writing 5 [\<lparr>name = ''a'', dst = 0\<rparr>]]" by iprover
  have "\<exists>s. run [EvAddOutput ''a'' 0, EvStart, EvLoop 0, EvLoop 0, EvLoop 0, EvTick] (boot limit64 ?m) = Inr s \<and>
      loops s = [InSelect 5 \<lparr>name = ''a'', dst = 0\<rparr> [] 1] \<and>
      full (chans s ! dst \<lparr>name = ''a'', dst = 0\<rparr>)"
    by (simp add: eval_defs full_def can_send_def)
  then obtain t where r': "run [EvAddOutput ''a'' 0, EvStart, EvLoop 0, EvLoop 0, EvLoop 0, EvTick] (boot limit64 ?m) = Inr t"
    and l': "loops t = [InSelect 5 \<lparr>name = ''a'', dst = 0\<rparr> [] 1]"
    and f': "full (chans t ! dst \<lparr>name = ''a'', dst = 0\<rparr>)" by iprover
  note th1 = timed_write_terminates[OF r d, of 5 "\<lparr>name = ''a'', dst = 0\<rparr>" "[]" 0]
  note th2 = timed_write_terminates[OF r' d, of 5 "\<lparr>name = ''a'', dst = 0\<rparr>" "[]" 1]
  from th1 l have a: "exec (EvLoop 0) s = Inr (s\<lparr>loops := [InSelect 5 \<lparr>name = ''a'', dst = 0\<rparr> [] (nat 2)]\<rparr>)"
    by blast
  from th2 l' f' have b: "exec (EvLoop 0) t = Inl Blocks"
    "run (replicate 1 EvTick @ [EvKill 0]) t = Inr (t\<lparr>loops := [Writing 5 []]\<rparr>)" by blast+
  from d r l a r' l' f' b show ?thesis by blast
qed

lemma loop_step_no_panic:
  assumes i: "sound s" and l: "loops s = [p]"
  shows "loop_step p s \<noteq> Inl Panics"
proof (cases p)
  case AtRead
  then show ?thesis by (auto simp: RunStep_recv_def split: list.splits)
next
  case (AtSnapshot x)
  then show ?thesis by (auto simp: RunStep_snapshot_def)
next
  case (Writing x outs)
  show ?thesis
  proof (cases outs)
    case Nil
    with Writing show ?thesis by simp
  next
    case (Cons out rest)
    from writing_facts[OF i, of x out rest] l Writing Cons
    have d: "dst out < length (chans s)" "\<not> closed (chans s ! dst out)" by auto
    then have "send_to (dst out) x s \<noteq> Inl Panics"
      by (auto simp: send_to_def chan_send_Panics split: sum.splits)
    then show ?thesis using Writing Cons
      by (cases "writer s")
        (auto simp: after_write_def blockingOutputWriter_def nonBlockingOutputWriter_def
          split: sum.splits fault.splits)
  qed
next
  case (InSelect x out rest t)
  from writing_facts[OF i, of x out rest t] l InSelect
  have d: "dst out < length (chans s)" "\<not> closed (chans s ! dst out)" by auto
  then have "send_to (dst out) x s \<noteq> Inl Panics"
    by (auto simp: send_to_def chan_send_Panics split: sum.splits)
  then show ?thesis using InSelect by (auto simp: after_write_def split: sum.splits)
next
  case AtShutdown
  have op: "\<forall>c \<in> set (chans s). \<not> closed c" using i l AtShutdown by (auto simp: inv_defs aux_defs)
  have ds: "map dst (outputs s) = [0..<length (chans s)]" using i by (auto simp: inv_defs)
  show ?thesis using AtShutdown by (simp add: shutdown_close_def ds close_all_whole[OF op])
next
  case AtSignal
  with signal_step[OF i] l show ?thesis by auto
next
  case Exited
  then show ?thesis by simp
qed

lemma exec_loop_no_panic:
  assumes i: "sound s"
  shows "exec (EvLoop k) s \<noteq> Inl Panics"
proof (cases "k < length (loops s)")
  case True
  from inv_one_loop[OF i True] have l: "k = 0" "loops s = [loops s ! 0]" by auto
  from loop_step_no_panic[OF i l(2)] True l(1) show ?thesis
    by (auto split: sum.splits)
next
  case False
  then show ?thesis by simp
qed

lemma loop_step_chans:
  assumes i: "sound s" and l: "loops s = [p]" and st: "loop_step p s = Inr (p', s')"
  shows "length (chans s') = length (chans s) \<and>
         (\<forall>a < length (chans s). (closed (chans s ! a) \<longrightarrow> closed (chans s' ! a)) \<and>
             (p = Exited \<longrightarrow> chans s' ! a = chans s ! a))"
proof (cases p)
  case (Writing x outs)
  show ?thesis
  proof (cases outs)
    case Nil
    with st Writing show ?thesis by auto
  next
    case (Cons out rest)
    have "closed c' = closed c" if "chan_send x c = Inr c'" for c c' :: "'a chan"
      using that by (auto simp: chan_send_def split: if_splits)
    with st Writing Cons show ?thesis
      by (cases "writer s")
        (auto simp: after_write_def blockingOutputWriter_def nonBlockingOutputWriter_def nth_list_update
          split: sum.splits fault.splits dest!: send_to_Inr)
  qed
next
  case (InSelect x out rest t)
  have "closed c' = closed c" if "chan_send x c = Inr c'" for c c' :: "'a chan"
    using that by (auto simp: chan_send_def split: if_splits)
  with st InSelect show ?thesis
    by (auto simp: after_write_def nth_list_update split: sum.splits dest!: send_to_Inr)
next
  case AtShutdown
  have op: "\<forall>c \<in> set (chans s). \<not> closed c" using i l AtShutdown by (auto simp: inv_defs aux_defs)
  have ds: "map dst (outputs s) = [0..<length (chans s)]" using i by (auto simp: inv_defs)
  from st AtShutdown show ?thesis
    by (auto simp: shutdown_close_def ds close_all_whole[OF op] split: if_splits)
qed (use st in \<open>auto simp: RunStep_recv_def RunStep_snapshot_def shutdown_signal_def
      split: list.splits if_splits sum.splits\<close>)

lemma closed_exec:
  assumes i: "sound s" and e: "exec e s = Inr s'" and a: "a < length (chans s)"
  shows "a < length (chans s') \<and> (closed (chans s ! a) \<longrightarrow> closed (chans s' ! a))"
proof (cases e)
  case (EvLoop k)
  with e obtain p' s1 where k: "k < length (loops s)" "loop_step (loops s ! k) s = Inr (p', s1)"
    "s' = s1\<lparr>loops := (loops s1)[k := p']\<rparr>"
    by (auto split: if_splits sum.splits)
  from inv_one_loop[OF i k(1)] have l: "k = 0" "loops s = [loops s ! 0]" by auto
  from loop_step_chans[OF i l(2) k(2)[unfolded l(1)]] a show ?thesis unfolding k(3) by simp
next
  case (EvRecv b)
  with e a show ?thesis by (auto simp: nth_list_update chan_recv_props split: if_splits)
qed (use e a in \<open>auto simp: AddOutput_def Start_def WaitUntilFinished_def nth_append
      split: sum.splits if_splits\<close>)

lemma closed_run:
  "sound s \<Longrightarrow> run es s = Inr s' \<Longrightarrow> a < length (chans s) \<Longrightarrow>
   a < length (chans s') \<and> (closed (chans s ! a) \<longrightarrow> closed (chans s' ! a))"
proof (induction es arbitrary: s)
  case Nil
  then show ?case by simp
next
  case (Cons e es)
  then obtain s1 where s1: "exec e s = Inr s1" "run es s1 = Inr s'" by (auto split: sum.splits)
  from closed_exec[OF Cons.prems(1) s1(1) Cons.prems(3)] inv_exec[OF Cons.prems(1) s1(1)]
    Cons.IH[OF _ s1(2)] show ?case by blast
qed

lemma closed_at_exit:
  "sound s \<Longrightarrow> loops s \<noteq> [Exited] \<Longrightarrow> run es s = Inr s' \<Longrightarrow> loops s' = [Exited] \<Longrightarrow>
   a < length (chans s) \<Longrightarrow> closed (chans s' ! a)"
proof (induction es arbitrary: s)
  case Nil
  then show ?case by simp
next
  case (Cons e es)
  then obtain s1 where s1: "exec e s = Inr s1" "run es s1 = Inr s'" by (auto split: sum.splits)
  have i1: "sound s1" using Cons.prems(1) s1(1) by (rule inv_exec)
  have a1: "a < length (chans s1)" using closed_exec[OF Cons.prems(1) s1(1) Cons.prems(5)] by simp
  show ?case
  proof (cases "loops s1 = [Exited]")
    case True
    from exited_from[OF Cons.prems(1) s1(1) True Cons.prems(2)]
    have q: "loops s = [AtSignal]" "chans s1 = chans s" by auto
    have "all_closed s" using Cons.prems(1) q(1) by (auto simp: inv_defs)
    then have "closed (chans s1 ! a)" using Cons.prems(5) q(2) by (simp add: all_closed_def)
    with closed_run[OF i1 s1(2) a1] show ?thesis by simp
  next
    case False
    from Cons.IH[OF i1 False s1(2) Cons.prems(4) a1] show ?thesis .
  qed
qed


lemma exec_len:
  assumes i: "sound s" and e: "exec e s = Inr s'"
  shows "length (chans s) \<le> length (chans s') \<and>
         (\<forall>a. length (chans s) \<le> a \<and> a < length (chans s') \<longrightarrow>
              \<not> closed (chans s' ! a) \<and> delivered (chans s' ! a) = [])"
proof (cases e)
  case (EvLoop k)
  with e obtain p' s1 where k: "k < length (loops s)" "loop_step (loops s ! k) s = Inr (p', s1)"
    "s' = s1\<lparr>loops := (loops s1)[k := p']\<rparr>"
    by (auto split: if_splits sum.splits)
  from inv_one_loop[OF i k(1)] have l: "k = 0" "loops s = [loops s ! 0]" by auto
  from loop_step_chans[OF i l(2) k(2)[unfolded l(1)]]
  have "length (chans s1) = length (chans s)" by simp
  then show ?thesis unfolding k(3) by auto
qed (use e in \<open>auto simp: AddOutput_def Start_def WaitUntilFinished_def nth_append make_chan_def
      new_chan_def delivered_def split: sum.splits if_splits\<close>)

lemma exited_frame:
  assumes i: "sound s" and x: "loops s = [Exited]" and e: "exec e s = Inr s'"
    and a: "a < length (chans s)"
  shows "closed (chans s' ! a) = closed (chans s ! a) \<and>
         delivered (chans s' ! a) = delivered (chans s ! a)"
proof (cases e)
  case (EvRecv b)
  with e a show ?thesis by (auto simp: nth_list_update chan_recv_props split: if_splits)
qed (use e a x in \<open>auto simp: AddOutput_def Start_def WaitUntilFinished_def nth_append
      split: sum.splits if_splits\<close>)

lemma exited_run:
  "sound s \<Longrightarrow> loops s = [Exited] \<Longrightarrow> run es s = Inr s' \<Longrightarrow> a < length (chans s) \<Longrightarrow>
   loops s' = [Exited] \<and> closed (chans s' ! a) = closed (chans s ! a) \<and>
   delivered (chans s' ! a) = delivered (chans s ! a)"
proof (induction es arbitrary: s)
  case Nil
  then show ?case by simp
next
  case (Cons e es)
  then obtain s1 where s1: "exec e s = Inr s1" "run es s1 = Inr s'" by (auto split: sum.splits)
  have i1: "sound s1" using Cons.prems(1) s1(1) by (rule inv_exec)
  have x1: "loops s1 = [Exited]" using Cons.prems(1) s1(1) Cons.prems(2) by (rule exited_stable)
  have a1: "a < length (chans s1)" using closed_exec[OF Cons.prems(1) s1(1) Cons.prems(4)] by simp
  from Cons.IH[OF i1 x1 s1(2) a1] exited_frame[OF Cons.prems(1,2) s1(1) Cons.prems(4)]
  show ?case by simp
qed

lemma late_inv_exec:
  assumes i: "sound s" and t: "late_inv s" and e: "exec e s = Inr s'"
  shows "late_inv s'"
  unfolding late_inv_def
proof (intro impI ballI)
  fix c assume x': "loops s' = [Exited]" and c: "c \<in> set (chans s')"
  then obtain a where a: "a < length (chans s')" "c = chans s' ! a" by (auto simp: in_set_conv_nth)
  show "closed c \<or> delivered c = []"
  proof (cases "loops s = [Exited]")
    case True
    show ?thesis
    proof (cases "a < length (chans s)")
      case sm: True
      then have "chans s ! a \<in> set (chans s)" by simp
      with t True have "closed (chans s ! a) \<or> delivered (chans s ! a) = []"
        by (simp add: late_inv_def)
      with exited_frame[OF i True e sm] a(2) show ?thesis by simp
    next
      case False
      with exec_len[OF i e] a show ?thesis by simp
    qed
  next
    case False
    from exited_from[OF i e x' False] have q: "loops s = [AtSignal]" "chans s' = chans s" by auto
    have "all_closed s" using i q(1) by (auto simp: inv_defs)
    with c q(2) show ?thesis by (simp add: all_closed_def)
  qed
qed

lemma late_inv_run: "sound s \<Longrightarrow> late_inv s \<Longrightarrow> run es s = Inr s' \<Longrightarrow> late_inv s'"
proof (induction es arbitrary: s)
  case Nil
  then show ?case by simp
next
  case (Cons e es)
  then obtain s1 where s1: "exec e s = Inr s1" "run es s1 = Inr s'" by (auto split: sum.splits)
  from Cons.IH[OF inv_exec[OF Cons.prems(1) s1(1)] late_inv_exec[OF Cons.prems(1,2) s1(1)] s1(2)]
  show ?case .
qed

section \<open>Closing the outputs\<close>

text \<open>
  Claim C2, as the code has it. \<^verbatim>\<open>shutdown\<close> closes the outputs registered when it
  takes the lock, and nothing closes an output registered later. For the channel of an
  output that exists in a reachable state \<open>s\<close>, and any continuation to \<open>s'\<close>:
  no step of the goroutine panics (no second \<^verbatim>\<open>close\<close>, no send after a close); if
  the channel is closed then the source is exhausted and the goroutine is in or past
  \<^verbatim>\<open>shutdown\<close>; a closed channel stays closed; if the goroutine has not exited in
  \<open>s\<close> and has in \<open>s'\<close>, the channel is closed in \<open>s'\<close>; and if the goroutine has
  exited in \<open>s\<close> and the channel is open (the output was registered after
  \<^verbatim>\<open>shutdown\<close>), it has received nothing and in \<open>s'\<close> it is still open and still
  has received nothing.
\<close>
theorem outputs_closed_at_shutdown_only:
  assumes "constructed m" "run es (boot L m) = Inr s" "run es' s = Inr s'" "a < length (chans s)"
  shows "exec (EvLoop k) s \<noteq> Inl Panics \<and>
    (closed (chans s ! a) \<longrightarrow> exhausted s \<and> (loops s = [AtSignal] \<or> loops s = [Exited])) \<and>
    (closed (chans s ! a) \<longrightarrow> closed (chans s' ! a)) \<and>
    (loops s \<noteq> [Exited] \<and> loops s' = [Exited] \<longrightarrow> closed (chans s' ! a)) \<and>
    (loops s = [Exited] \<and> \<not> closed (chans s ! a) \<longrightarrow>
       delivered (chans s ! a) = [] \<and> \<not> closed (chans s' ! a) \<and> delivered (chans s' ! a) = [])"
proof -
  have i: "sound s" using assms(1,2) by (rule inv_reach)
  have "late_inv (boot L m)" by (simp add: late_inv_def boot_sel)
  then have lt: "late_inv s" using inv_boot[OF assms(1)] assms(2) late_inv_run by blast
  have c: "chans s ! a \<in> set (chans s)" using assms(4) by simp
  have p1: "exec (EvLoop k) s \<noteq> Inl Panics" using i by (rule exec_loop_no_panic)
  have p2: "exhausted s \<and> (loops s = [AtSignal] \<or> loops s = [Exited])" if cl: "closed (chans s ! a)"
  proof -
    have no: "\<not> open_all s" using c cl by (auto simp: open_all_def)
    from i have "loops_inv s" by (simp add: sound_def)
    then show ?thesis
    proof (cases "loops s")
      case Nil
      with \<open>loops_inv s\<close> no show ?thesis by (simp add: loops_inv_def)
    next
      case (Cons p ps)
      with \<open>loops_inv s\<close> have ps: "ps = []" and pi: "pc_inv p s"
        by (auto simp: loops_inv_def split: list.splits)
      from pi no Cons ps show ?thesis by (cases p) auto
    qed
  qed
  have p3: "closed (chans s' ! a)" if "closed (chans s ! a)"
    using closed_run[OF i assms(3,4)] that by simp
  have p4: "closed (chans s' ! a)" if "loops s \<noteq> [Exited]" "loops s' = [Exited]"
    using closed_at_exit[OF i that(1) assms(3) that(2) assms(4)] .
  have p5: "delivered (chans s ! a) = [] \<and> \<not> closed (chans s' ! a) \<and> delivered (chans s' ! a) = []"
    if x: "loops s = [Exited]" "\<not> closed (chans s ! a)"
  proof -
    from lt x c have "delivered (chans s ! a) = []" by (auto simp: late_inv_def)
    with exited_run[OF i x(1) assms(3,4)] x(2) show ?thesis by simp
  qed
  from p1 p2 p3 p4 p5 show ?thesis by blast
qed

theorem outputs_closed_at_shutdown_only_witness:
  "constructed (NewBlockingPairMux \<lparr>queue = ([]::nat list), sclosed = True\<rparr>) \<and>
   (\<exists>s s'. run [EvAddOutput ''a'' 1, EvStart]
              (boot limit64 (NewBlockingPairMux \<lparr>queue = ([]::nat list), sclosed = True\<rparr>)) = Inr s \<and>
      run [EvLoop 0, EvLoop 0, EvLoop 0] s = Inr s' \<and> 0 < length (chans s) \<and>
      loops s \<noteq> [Exited] \<and> loops s' = [Exited] \<and> closed (chans s' ! 0)) \<and>
   (\<exists>s s'. run [EvAddOutput ''a'' 1, EvStart, EvLoop 0, EvLoop 0]
              (boot limit64 (NewBlockingPairMux \<lparr>queue = ([]::nat list), sclosed = True\<rparr>)) = Inr s \<and>
      run [EvLoop 0] s = Inr s' \<and> 0 < length (chans s) \<and>
      closed (chans s ! 0) \<and> exhausted s \<and> loops s = [AtSignal] \<and> closed (chans s' ! 0)) \<and>
   (\<exists>s s'. run [EvStart, EvLoop 0, EvLoop 0, EvLoop 0, EvAddOutput ''late'' 1]
              (boot limit64 (NewBlockingPairMux \<lparr>queue = ([]::nat list), sclosed = True\<rparr>)) = Inr s \<and>
      run [EvRecv 0, EvTick] s = Inr s' \<and> 0 < length (chans s) \<and>
      loops s = [Exited] \<and> \<not> closed (chans s ! 0) \<and>
      \<not> closed (chans s' ! 0) \<and> delivered (chans s' ! 0) = [])"
proof -
  let ?m = "NewBlockingPairMux \<lparr>queue = ([]::nat list), sclosed = True\<rparr>"
  have c: "constructed ?m" by (simp add: eval_defs)
  have "\<exists>s s'. run [EvAddOutput ''a'' 1, EvStart] (boot limit64 ?m) = Inr s \<and>
      run [EvLoop 0, EvLoop 0, EvLoop 0] s = Inr s' \<and> 0 < length (chans s) \<and>
      loops s \<noteq> [Exited] \<and> loops s' = [Exited]"
    by (simp add: eval_defs)
  then obtain s1 s1' where r1: "run [EvAddOutput ''a'' 1, EvStart] (boot limit64 ?m) = Inr s1"
    and q1: "run [EvLoop 0, EvLoop 0, EvLoop 0] s1 = Inr s1'" and a1: "0 < length (chans s1)"
    and l1: "loops s1 \<noteq> [Exited]" "loops s1' = [Exited]" by iprover
  have "\<exists>s s'. run [EvAddOutput ''a'' 1, EvStart, EvLoop 0, EvLoop 0] (boot limit64 ?m) = Inr s \<and>
      run [EvLoop 0] s = Inr s' \<and> 0 < length (chans s) \<and> closed (chans s ! 0)"
    by (simp add: eval_defs)
  then obtain s2 s2' where r2: "run [EvAddOutput ''a'' 1, EvStart, EvLoop 0, EvLoop 0] (boot limit64 ?m) = Inr s2"
    and q2: "run [EvLoop 0] s2 = Inr s2'" and a2: "0 < length (chans s2)"
    and l2: "closed (chans s2 ! 0)" by iprover
  have "\<exists>s s'. run [EvStart, EvLoop 0, EvLoop 0, EvLoop 0, EvAddOutput ''late'' 1] (boot limit64 ?m) = Inr s \<and>
      run [EvRecv 0, EvTick] s = Inr s' \<and> 0 < length (chans s) \<and>
      loops s = [Exited] \<and> \<not> closed (chans s ! 0)"
    by (simp add: eval_defs)
  then obtain s3 s3' where r3: "run [EvStart, EvLoop 0, EvLoop 0, EvLoop 0, EvAddOutput ''late'' 1] (boot limit64 ?m) = Inr s3"
    and q3: "run [EvRecv 0, EvTick] s3 = Inr s3'" and a3: "0 < length (chans s3)"
    and l3: "loops s3 = [Exited]" "\<not> closed (chans s3 ! 0)" by iprover
  note th1 = outputs_closed_at_shutdown_only[OF c r1 q1 a1, of 0]
  note th2 = outputs_closed_at_shutdown_only[OF c r2 q2 a2, of 0]
  note th3 = outputs_closed_at_shutdown_only[OF c r3 q3 a3, of 0]
  from th1 l1 have g1: "closed (chans s1' ! 0)" by blast
  from th2 l2 have g2: "exhausted s2" "loops s2 = [AtSignal] \<or> loops s2 = [Exited]" "closed (chans s2' ! 0)"
    by blast+
  have "\<exists>s. run [EvAddOutput ''a'' 1, EvStart, EvLoop 0, EvLoop 0] (boot limit64 ?m) = Inr s \<and> loops s = [AtSignal]"
    by (simp add: eval_defs)
  with r2 have g2': "loops s2 = [AtSignal]" by auto
  from th3 l3 have g3: "\<not> closed (chans s3' ! 0)" "delivered (chans s3' ! 0) = []" by blast+
  show ?thesis
    using c r1 q1 a1 l1 g1 r2 q2 a2 l2 g2(1) g2' g2(3) r3 q3 a3 l3 g3 by blast
qed

text \<open>
  An output registered after the goroutine has exited: the completion value has been
  sent, the lock is free, no goroutine is left, and the output's channel is open.
\<close>

theorem late_output_never_closed_counterexample:
  "\<exists>s. run [EvStart, EvCloseSrc, EvLoop 0, EvLoop 0, EvLoop 0, EvAddOutput ''late'' 1]
          (boot limit64 (NewBlockingPairMux \<lparr>queue = ([]::nat list), sclosed = False\<rparr>)) = Inr s \<and>
       loops s = [Exited] \<and> signalled s \<and> \<not> lock s \<and>
       outputs s = [\<lparr>name = ''late'', dst = 0\<rparr>] \<and> \<not> closed (chans s ! 0)"
  by (simp add: eval_defs signalled_def delivered_def)

section \<open>What each output has been sent\<close>

lemma rel_send:
  assumes R1: "\<And>xs ys x. R xs ys \<Longrightarrow> R (xs @ [x]) (ys @ [x])"
    and i: "sound s"
    and l: "loops s = [Writing x (out # rest)] \<or> loops s = [InSelect x out rest t]"
    and sd: "send_to (dst out) x s = Inr s1"
    and r: "\<forall>a<k. R (delivered (chans s ! a))
               (if a \<in> dst ` set (out # rest) then butlast (readlog s) else readlog s)"
  shows "\<forall>a<k. R (delivered (chans s1 ! a))
               (if a \<in> dst ` set rest then butlast (readlog s1) else readlog s1)"
proof (intro allI impI)
  fix a assume a: "a < k"
  from writing_facts[OF i l]
  have d: "dst out < length (chans s)" "chan_ok (chans s ! dst out)" "dst out \<notin> dst ` set rest"
    by auto
  from i l have "read_last x s" by (auto simp: inv_defs)
  then have rl: "readlog s = butlast (readlog s) @ [x]" by (auto simp: read_last_def)
  from send_to_Inr[OF sd] obtain c' where c': "chan_send x (chans s ! dst out) = Inr c'"
    "s1 = s\<lparr>chans := (chans s)[dst out := c']\<rparr>" by blast
  from chan_send_Inr[OF c'(1) d(2)] have dl: "delivered c' = delivered (chans s ! dst out) @ [x]"
    by simp
  show "R (delivered (chans s1 ! a)) (if a \<in> dst ` set rest then butlast (readlog s1) else readlog s1)"
  proof (cases "a = dst out")
    case True
    from r[rule_format, OF a] True have "R (delivered (chans s ! dst out)) (butlast (readlog s))" by simp
    from R1[OF this, of x] rl have "R (delivered c') (readlog s)" by (simp add: dl)
    then show ?thesis using True d c'(2) by simp
  next
    case False
    then have "(a \<in> dst ` set (out # rest)) = (a \<in> dst ` set rest)" by auto
    with r[rule_format, OF a] False d(1) show ?thesis unfolding c'(2) by (auto split: if_splits)
  qed
qed

lemma rel_drop:
  assumes R2: "\<And>xs ys x. R xs ys \<Longrightarrow> R xs (ys @ [x])"
    and i: "sound s"
    and l: "loops s = [Writing x (out # rest)] \<or> loops s = [InSelect x out rest t]"
    and r: "\<forall>a<k. R (delivered (chans s ! a))
               (if a \<in> dst ` set (out # rest) then butlast (readlog s) else readlog s)"
  shows "\<forall>a<k. R (delivered (chans s ! a))
               (if a \<in> dst ` set rest then butlast (readlog s) else readlog s)"
proof (intro allI impI)
  fix a assume a: "a < k"
  from writing_facts[OF i l] have d: "dst out \<notin> dst ` set rest" by auto
  from i l have "read_last x s" by (auto simp: inv_defs)
  then have rl: "readlog s = butlast (readlog s) @ [x]" by (auto simp: read_last_def)
  show "R (delivered (chans s ! a)) (if a \<in> dst ` set rest then butlast (readlog s) else readlog s)"
  proof (cases "a = dst out")
    case True
    from r[rule_format, OF a] True have "R (delivered (chans s ! dst out)) (butlast (readlog s))" by simp
    from R2[OF this, of x] rl have "R (delivered (chans s ! dst out)) (readlog s)" by simp
    then show ?thesis using True d by simp
  next
    case False
    then have "(a \<in> dst ` set (out # rest)) = (a \<in> dst ` set rest)" by auto
    with r[rule_format, OF a] show ?thesis by (auto split: if_splits)
  qed
qed


lemma rel_loop_step:
  assumes R1: "\<And>xs ys x. R xs ys \<Longrightarrow> R (xs @ [x]) (ys @ [x])"
    and R2: "writer s = BlockingWriter \<or> (\<forall>xs ys x. R xs ys \<longrightarrow> R xs (ys @ [x]))"
    and i: "sound s" and l: "loops s = [p]" and st: "loop_step p s = Inr (p', s1)"
    and k: "k \<le> length (chans s)"
    and r: "\<forall>a<k. R (delivered (chans s ! a)) (if pend p a then butlast (readlog s) else readlog s)"
  shows "\<forall>a<k. R (delivered (chans s1 ! a)) (if pend p' a then butlast (readlog s1) else readlog s1)"
proof (cases p)
  case AtRead
  with st r show ?thesis
    by (auto simp: RunStep_recv_def split: list.splits if_splits)
next
  case (AtSnapshot x)
  with st have e: "s1 = s" "p' = Writing x (outputs s)"
    by (auto simp: RunStep_snapshot_def split: if_splits)
  have "set (map dst (outputs s)) = {0..<length (chans s)}"
    using i by (simp add: sound_def heap_inv_def)
  then have "pend p' a" if "a < k" for a using that k unfolding e(2) by auto
  with r AtSnapshot show ?thesis unfolding e(1) by simp
next
  case (Writing x outs)
  show ?thesis
  proof (cases outs)
    case Nil
    with st Writing r show ?thesis by auto
  next
    case (Cons out rest)
    have l': "loops s = [Writing x (out # rest)] \<or> loops s = [InSelect x out rest 0]"
      using l Writing Cons by simp
    have r': "\<forall>a<k. R (delivered (chans s ! a))
               (if a \<in> dst ` set (out # rest) then butlast (readlog s) else readlog s)"
      using r Writing Cons by simp
    show ?thesis
    proof (cases "writer s")
      case BlockingWriter
      with st Writing Cons have sd: "send_to (dst out) x s = Inr s1" and p': "p' = Writing x rest"
        by (auto simp: after_write_def blockingOutputWriter_def split: sum.splits)
      from rel_send[of R, OF R1 i l' sd r'] show ?thesis unfolding p' by (auto split: if_splits)
    next
      case NonBlockingWriter
      with R2 have R2': "\<And>xs ys x. R xs ys \<Longrightarrow> R xs (ys @ [x])" by auto
      from st Writing Cons NonBlockingWriter
      have p': "p' = Writing x rest" and c: "s1 = s \<or> send_to (dst out) x s = Inr s1"
        by (auto simp: after_write_def nonBlockingOutputWriter_def split: sum.splits fault.splits)
      from c show ?thesis
      proof
        assume "s1 = s"
        with rel_drop[of R, OF R2' i l' r'] show ?thesis unfolding p' by (auto split: if_splits)
      next
        assume sd: "send_to (dst out) x s = Inr s1"
        from rel_send[of R, OF R1 i l' sd r'] show ?thesis unfolding p' by (auto split: if_splits)
      qed
    next
      case (TimeoutWriter d)
      with st Writing Cons have "s1 = s" "p' = InSelect x out rest (nat d)"
        by (auto simp: timeoutOutputWriter_enter_def)
      with r' show ?thesis by (auto split: if_splits)
    qed
  qed
next
  case (InSelect x out rest t)
  have l': "loops s = [Writing x (out # rest)] \<or> loops s = [InSelect x out rest t]"
    using l InSelect by simp
  have r': "\<forall>a<k. R (delivered (chans s ! a))
               (if a \<in> dst ` set (out # rest) then butlast (readlog s) else readlog s)"
    using r InSelect by simp
  from st InSelect have sd: "send_to (dst out) x s = Inr s1" and p': "p' = Writing x rest"
    by (auto simp: after_write_def split: sum.splits)
  from rel_send[of R, OF R1 i l' sd r'] show ?thesis unfolding p' by (auto split: if_splits)
next
  case AtShutdown
  have op: "\<forall>c \<in> set (chans s). \<not> closed c" using i l AtShutdown by (auto simp: inv_defs aux_defs)
  have ds: "map dst (outputs s) = [0..<length (chans s)]" using i by (auto simp: inv_defs)
  from st AtShutdown have e: "p' = AtSignal"
    "s1 = s\<lparr>lock := True, chans := map (\<lambda>c. c\<lparr>closed := True, rwait := 0\<rparr>) (chans s)\<rparr>"
    by (auto simp: shutdown_close_def ds close_all_whole[OF op] split: if_splits)
  show ?thesis using r k AtShutdown unfolding e by (simp add: delivered_def)
next
  case AtSignal
  with st r show ?thesis by (auto simp: shutdown_signal_def split: sum.splits)
next
  case Exited
  with st show ?thesis by simp
qed


lemma due_one: "loops s = [p] \<Longrightarrow> due s a = (if pend p a then butlast (readlog s) else readlog s)"
  by (simp add: due_def)

lemma due_none: "loops s = [] \<Longrightarrow> due s a = readlog s"
  by (simp add: due_def)

lemma pend_tick: "pend (tick p) a = pend p a"
  by (cases p) simp_all

lemma due_frame:
  "loops s' = loops s \<Longrightarrow> readlog s' = readlog s \<Longrightarrow> due s' a = due s a"
  by (simp add: due_def)

lemma rel_frame:
  assumes "rel R k s" "loops s' = loops s \<or> loops s' = map tick (loops s)" "readlog s' = readlog s"
    "length (chans s) \<le> length (chans s')"
    "\<forall>a<length (chans s). delivered (chans s' ! a) = delivered (chans s ! a)"
  shows "rel R k s'"
proof -
  have "list_ex (\<lambda>p. pend p a) (map tick (loops s)) = list_ex (\<lambda>p. pend p a) (loops s)" for a
    by (simp add: list_ex_iff pend_tick)
  then have "due s' a = due s a" for a using assms(2,3) by (auto simp: due_def)
  with assms(1,4,5) show ?thesis by (auto simp: rel_def)
qed

lemma rel_exec:
  assumes R1: "\<And>xs ys x. R xs ys \<Longrightarrow> R (xs @ [x]) (ys @ [x])"
    and R2: "writer s = BlockingWriter \<or> (\<forall>xs ys x. R xs ys \<longrightarrow> R xs (ys @ [x]))"
    and i: "sound s" and ti: "timer_inv s" and e: "exec e s = Inr s'" and r: "rel R k s"
  shows "rel R k s'"
proof (cases e)
  case (EvAddOutput nm bf)
  with e r show ?thesis
    by (intro rel_frame[OF r]) (auto simp: AddOutput_def nth_append split: sum.splits if_splits)
next
  case EvStart
  show ?thesis
  proof (cases "started s")
    case True
    with e EvStart have "s' = s" by (auto simp: Start_def split: if_splits)
    with r show ?thesis by simp
  next
    case False
    with i have n: "loops s = []" by (auto simp: inv_defs split: list.splits)
    from e EvStart False have s': "s' = s\<lparr>started := True, loops := loops s @ [AtRead]\<rparr>"
      by (auto simp: Start_def split: if_splits)
    have "due s' a = due s a" for a unfolding s' by (simp add: due_def n)
    with r show ?thesis unfolding s' by (simp add: rel_def)
  qed
next
  case (EvLoop j)
  with e obtain p' s1 where j: "j < length (loops s)" "loop_step (loops s ! j) s = Inr (p', s1)"
    "s' = s1\<lparr>loops := (loops s1)[j := p']\<rparr>"
    by (auto split: if_splits sum.splits)
  from inv_one_loop[OF i j(1)] have l: "j = 0" "loops s = [loops s ! 0]" by auto
  have l1: "loops s1 = [loops s ! 0]" using loop_step_loops[OF j(2)] l(2) by simp
  then have ls': "loops s' = [p']" unfolding j(3) using l(1) by simp
  from r have k: "k \<le> length (chans s)"
    and r0: "\<forall>a<k. R (delivered (chans s ! a))
        (if pend (loops s ! 0) a then butlast (readlog s) else readlog s)"
    using due_one[OF l(2)] by (simp_all add: rel_def)
  from rel_loop_step[of R, OF R1 R2 i l(2) j(2)[unfolded l(1)] k r0]
  have "\<forall>a<k. R (delivered (chans s1 ! a)) (if pend p' a then butlast (readlog s1) else readlog s1)" .
  moreover have "chans s' = chans s1" "readlog s' = readlog s1" unfolding j(3) by simp_all
  moreover have "length (chans s1) = length (chans s)"
    using loop_step_chans[OF i l(2) j(2)[unfolded l(1)]] by simp
  ultimately show ?thesis using k due_one[OF ls'] by (auto simp: rel_def split: if_splits)
next
  case (EvKill j)
  with e obtain p' where j: "j < length (loops s)" "kill_step (loops s ! j) = Inr p'"
    "s' = s\<lparr>loops := (loops s)[j := p']\<rparr>"
    by (auto split: if_splits sum.splits)
  from inv_one_loop[OF i j(1)] have l: "j = 0" "loops s = [loops s ! 0]" by auto
  from j(2) l(1) obtain x out rest where q: "loops s ! 0 = InSelect x out rest 0" "p' = Writing x rest"
    by (cases "loops s ! 0") (auto split: if_splits)
  have l': "loops s = [Writing x (out # rest)] \<or> loops s = [InSelect x out rest 0]"
    using l(2) q(1) by simp
  have "timer_ok (writer s) (InSelect x out rest 0)"
    using ti l(2) q(1) by (simp add: timer_inv_def)
  then have "writer s \<noteq> BlockingWriter" by (auto simp: timer_ok_def)
  with R2 have R2': "\<And>xs ys x. R xs ys \<Longrightarrow> R xs (ys @ [x])" by auto
  from r have k: "k \<le> length (chans s)"
    and r0: "\<forall>a<k. R (delivered (chans s ! a))
        (if a \<in> dst ` set (out # rest) then butlast (readlog s) else readlog s)"
    using due_one[OF l(2)] q(1) by (simp_all add: rel_def)
  from rel_drop[of R, OF R2' i l' r0]
  have g: "\<forall>a<k. R (delivered (chans s ! a))
        (if a \<in> dst ` set rest then butlast (readlog s) else readlog s)" .
  have ls': "loops s' = [Writing x rest]" unfolding j(3) using l q(2)
    by (metis list_update_code(2) world.select_convs(2) world.surjective world.update_convs(2))
  have "chans s' = chans s" "readlog s' = readlog s" unfolding j(3) by simp_all
  with g k due_one[OF ls'] show ?thesis by (auto simp: rel_def split: if_splits)
next
  case EvTick
  with e show ?thesis by (intro rel_frame[OF r]) auto
next
  case EvWait
  with e show ?thesis by (intro rel_frame[OF r]) (auto simp: WaitUntilFinished_def)
next
  case (EvRecv b)
  with e show ?thesis
    by (intro rel_frame[OF r]) (auto simp: nth_list_update chan_recv_props split: if_splits)
next
  case (EvPush y)
  with e show ?thesis by (intro rel_frame[OF r]) (auto split: if_splits)
next
  case EvCloseSrc
  with e show ?thesis by (intro rel_frame[OF r]) (auto split: if_splits)
qed


lemma rel_run:
  assumes R1: "\<And>xs ys x. R xs ys \<Longrightarrow> R (xs @ [x]) (ys @ [x])"
    and R2: "writer s = BlockingWriter \<or> (\<forall>xs ys x. R xs ys \<longrightarrow> R xs (ys @ [x]))"
  shows "sound s \<Longrightarrow> timer_inv s \<Longrightarrow> rel R k s \<Longrightarrow> run es s = Inr s' \<Longrightarrow> rel R k s'"
  using R2
proof (induction es arbitrary: s)
  case Nil
  then show ?case by simp
next
  case (Cons e es)
  then obtain s1 where s1: "exec e s = Inr s1" "run es s1 = Inr s'" by (auto split: sum.splits)
  have "rel R k s1" using R1 Cons.prems(5,1,2) s1(1) Cons.prems(3) by (rule rel_exec)
  moreover have "sound s1" using Cons.prems(1) s1(1) by (rule inv_exec)
  moreover have "timer_inv s1" using Cons.prems(2) s1(1) by (rule timer_inv_exec)
  moreover have "writer s1 = BlockingWriter \<or> (\<forall>xs ys x. R xs ys \<longrightarrow> R xs (ys @ [x]))"
    using Cons.prems(5) exec_frame[OF s1(1)] by simp
  ultimately show ?case using s1(2) Cons.IH by blast
qed

lemma loop_step_src:
  "loop_step p s = Inr (p', s') \<Longrightarrow>
     readlog s' @ queue (src s') = readlog s @ queue (src s) \<and> sclosed (src s') = sclosed (src s)"
proof (cases p)
  case (Writing x outs)
  assume st: "loop_step p s = Inr (p', s')"
  show ?thesis
  proof (cases outs)
    case Nil
    with st Writing show ?thesis by auto
  next
    case (Cons out rest)
    with st Writing show ?thesis
      by (cases "writer s")
        (auto simp: after_write_def blockingOutputWriter_def nonBlockingOutputWriter_def
          split: sum.splits fault.splits dest!: send_to_Inr)
  qed
qed (auto simp: RunStep_recv_def RunStep_snapshot_def shutdown_close_def shutdown_signal_def
      after_write_def split: list.splits if_splits sum.splits dest!: send_to_Inr)

lemma exec_pushes:
  "exec e s = Inr s' \<Longrightarrow> readlog s' @ queue (src s') = readlog s @ queue (src s) @ pushes [e]"
proof (cases e)
  case (EvLoop j)
  assume e: "exec e s = Inr s'"
  with EvLoop obtain p' s1 where j: "loop_step (loops s ! j) s = Inr (p', s1)"
    "s' = s1\<lparr>loops := (loops s1)[j := p']\<rparr>"
    by (auto split: if_splits sum.splits)
  from loop_step_src[OF j(1)] EvLoop show ?thesis unfolding j(2) by simp
qed (auto simp: AddOutput_def Start_def WaitUntilFinished_def split: sum.splits if_splits)

lemma pushes_Cons: "pushes (e # es) = pushes [e] @ pushes es"
  by (cases e) simp_all

lemma run_pushes:
  "run es s = Inr s' \<Longrightarrow> readlog s' @ queue (src s') = readlog s @ queue (src s) @ pushes es"
proof (induction es arbitrary: s)
  case Nil
  then show ?case by simp
next
  case (Cons e es)
  then obtain s1 where s1: "exec e s = Inr s1" "run es s1 = Inr s'" by (auto split: sum.splits)
  from Cons.IH[OF s1(2)] exec_pushes[OF s1(1)] show ?case
    by (subst pushes_Cons) simp
qed

lemma pushes_append: "pushes (es @ es') = pushes es @ pushes es'"
proof (induction es)
  case Nil
  then show ?case by simp
next
  case (Cons e es)
  then show ?case using pushes_Cons[of e "es @ es'"] pushes_Cons[of e es] by simp
qed

lemma nodup_exec:
  assumes i: "sound s" and ti: "timer_inv s" and n: "nodup s" and e: "exec e s = Inr s'"
  shows "nodup s'"
proof -
  have r: "rel subseq (length (chans s)) s'"
    using i ti e n[unfolded nodup_def]
    by (intro rel_exec[of subseq s e s' "length (chans s)"]) (auto simp: subseq_rev_drop_many)
  show ?thesis unfolding nodup_def rel_def
  proof (intro conjI allI impI)
    fix a assume a: "a < length (chans s')"
    show "subseq (delivered (chans s' ! a)) (due s' a)"
    proof (cases "a < length (chans s)")
      case True
      with r show ?thesis by (simp add: rel_def)
    next
      case False
      with exec_len[OF i e] a have "delivered (chans s' ! a) = []" by simp
      then show ?thesis by simp
    qed
  qed simp
qed

lemma nodup_run: "sound s \<Longrightarrow> timer_inv s \<Longrightarrow> nodup s \<Longrightarrow> run es s = Inr s' \<Longrightarrow> nodup s'"
proof (induction es arbitrary: s)
  case Nil
  then show ?case by simp
next
  case (Cons e es)
  then obtain s1 where s1: "exec e s = Inr s1" "run es s1 = Inr s'" by (auto split: sum.splits)
  from Cons.IH[OF inv_exec[OF Cons.prems(1) s1(1)] timer_inv_exec[OF Cons.prems(2) s1(1)]
      nodup_exec[OF Cons.prems(1,2,3) s1(1)] s1(2)]
  show ?case .
qed

lemma due_subseq: "subseq (due s a) (readlog s)"
proof -
  have "subseq (butlast xs) xs" for xs :: "'a list"
    by (metis append_butlast_last_id butlast.simps(1) subseq_rev_drop_many subseq_order.order_refl
        list_emb_append2 subseq_order.eq_iff prefix_order.dual_order.refl butlast_conv_take
        sublist_imp_subseq sublist_take)
  then show ?thesis by (simp add: due_def)
qed

lemma run_seq: "run es s = Inr s1 \<Longrightarrow> run es' s1 = r \<Longrightarrow> run (es @ es') s = r"
  by (simp add: run_append)

lemma run_single: "exec e s = Inr s1 \<Longrightarrow> run [e] s = Inr s1"
  by simp

lemma can_send_after_recv: "chan_ok c \<Longrightarrow> \<not> closed c \<Longrightarrow> can_send (chan_recv c)"
  by (cases "buf c") (auto simp: chan_ok_def chan_recv_def can_send_def)

lemma serve_step:
  assumes i: "sound s" and w: "writer s = BlockingWriter" and l: "loops s = [Writing x (out # rest)]"
  shows "\<exists>s'. run [EvRecv (dst out), EvLoop 0] s = Inr s' \<and> loops s' = [Writing x rest] \<and>
              src s' = src s \<and> outputs s' = outputs s"
proof -
  from writing_facts[OF i, of x out rest] l
  have d: "dst out < length (chans s)" "\<not> closed (chans s ! dst out)" "chan_ok (chans s ! dst out)"
    by auto
  let ?c1 = "chan_recv (chans s ! dst out)"
  let ?s1 = "s\<lparr>chans := (chans s)[dst out := ?c1]\<rparr>"
  have e1: "exec (EvRecv (dst out)) s = Inr ?s1" using d(1) by simp
  have "can_send ?c1" "\<not> closed ?c1"
    using d(2,3) by (simp_all add: can_send_after_recv chan_recv_props)
  from chan_send_can[OF this(2,1)] obtain c2 where c2: "chan_send x ?c1 = Inr c2" by blast
  let ?s2 = "?s1\<lparr>chans := (chans ?s1)[dst out := c2], loops := [Writing x rest]\<rparr>"
  have e2: "exec (EvLoop 0) ?s1 = Inr ?s2"
    using l w d(1) c2 by (simp add: blockingOutputWriter_def send_to_def after_write_def)
  have "run [EvRecv (dst out), EvLoop 0] s = Inr ?s2" using e1 e2 by simp
  then show ?thesis by (intro exI[of _ ?s2]) simp
qed

lemma serve_ok:
  "sound s \<Longrightarrow> writer s = BlockingWriter \<Longrightarrow> loops s = [Writing x outs] \<Longrightarrow>
   \<exists>s'. run (serve outs) s = Inr s' \<and> loops s' = [AtRead] \<and> src s' = src s \<and>
         outputs s' = outputs s"
proof (induction outs arbitrary: s)
  case Nil
  then have "run (serve []) s = Inr (s\<lparr>loops := [AtRead]\<rparr>)" by simp
  then show ?case by (intro exI[of _ "s\<lparr>loops := [AtRead]\<rparr>"]) simp
next
  case (Cons out rest)
  from serve_step[OF Cons.prems] obtain s2 where
    s2: "run [EvRecv (dst out), EvLoop 0] s = Inr s2" "loops s2 = [Writing x rest]"
    "src s2 = src s" "outputs s2 = outputs s" by blast
  have i2: "sound s2" using Cons.prems(1) s2(1) by (rule inv_run)
  have w2: "writer s2 = BlockingWriter" using run_frame[OF s2(1)] Cons.prems(2) by simp
  from Cons.IH[OF i2 w2 s2(2)] obtain s' where
    s': "run (serve rest) s2 = Inr s'" "loops s' = [AtRead]" "src s' = src s2" "outputs s' = outputs s2"
    by blast
  have "run ([EvRecv (dst out), EvLoop 0] @ serve rest) s = Inr s'"
    using s2(1) s'(1) by (rule run_seq)
  then have "run (serve (out # rest)) s = Inr s'" by simp
  with s' s2 show ?case by (intro exI[of _ s']) simp
qed


lemma shutdown_run:
  assumes i: "sound s" and l: "loops s = [AtShutdown]"
  shows "\<exists>s'. run [EvLoop 0, EvLoop 0] s = Inr s' \<and> loops s' = [Exited]"
proof -
  have op: "\<forall>c \<in> set (chans s). \<not> closed c" using i l by (auto simp: inv_defs aux_defs)
  have ds: "map dst (outputs s) = [0..<length (chans s)]" "\<not> lock s" using i l by (auto simp: inv_defs)
  let ?t = "s\<lparr>lock := True, chans := map (\<lambda>c. c\<lparr>closed := True, rwait := 0\<rparr>) (chans s), loops := [AtSignal]\<rparr>"
  have e: "exec (EvLoop 0) s = Inr ?t"
    using l ds by (simp add: shutdown_close_def close_all_whole[OF op])
  have "sound ?t" using i e by (rule inv_exec)
  from signal_step[OF this] obtain c where
    "exec (EvLoop 0) ?t = Inr (?t\<lparr>Finished := c, lock := False, loops := [Exited]\<rparr>)" by auto
  with e have "run [EvLoop 0, EvLoop 0] s = Inr (?t\<lparr>Finished := c, lock := False, loops := [Exited]\<rparr>)"
    by simp
  then show ?thesis by (intro exI[of _ "?t\<lparr>Finished := c, lock := False, loops := [Exited]\<rparr>"]) simp
qed

lemma snapshot_serve:
  assumes i: "sound s" and w: "writer s = BlockingWriter" and l: "loops s = [AtSnapshot x]"
  shows "\<exists>s'. run (EvLoop 0 # serve (outputs s)) s = Inr s' \<and> loops s' = [AtRead] \<and>
              src s' = src s \<and> outputs s' = outputs s"
proof -
  have nl: "\<not> lock s" using i l by (auto simp: inv_defs)
  let ?s1 = "s\<lparr>loops := [Writing x (outputs s)]\<rparr>"
  have e: "exec (EvLoop 0) s = Inr ?s1" using l nl by (simp add: RunStep_snapshot_def)
  have i1: "sound ?s1" using i e by (rule inv_exec)
  from serve_ok[OF i1, of x "outputs s"] w obtain s' where
    s': "run (serve (outputs s)) ?s1 = Inr s'" "loops s' = [AtRead]" "src s' = src ?s1"
    "outputs s' = outputs ?s1" by auto
  have "run (EvLoop 0 # serve (outputs s)) s = Inr s'" using e s'(1) by simp
  with s' show ?thesis by (intro exI[of _ s']) simp
qed

lemma pump_ok:
  "sound s \<Longrightarrow> writer s = BlockingWriter \<Longrightarrow> loops s = [AtRead] \<Longrightarrow> sclosed (src s) \<Longrightarrow>
   length (queue (src s)) = n \<Longrightarrow>
   \<exists>s'. run (pump n (outputs s)) s = Inr s' \<and> loops s' = [Exited]"
proof (induction n arbitrary: s)
  case 0
  let ?s1 = "s\<lparr>loops := [AtShutdown]\<rparr>"
  have e: "exec (EvLoop 0) s = Inr ?s1" using 0 by (simp add: RunStep_recv_def)
  have "sound ?s1" using 0(1) e by (rule inv_exec)
  from shutdown_run[OF this] obtain s' where
    s': "run [EvLoop 0, EvLoop 0] ?s1 = Inr s'" "loops s' = [Exited]" by auto
  have "run ([EvLoop 0] @ [EvLoop 0, EvLoop 0]) s = Inr s'"
    by (rule run_seq[OF run_single[OF e] s'(1)])
  then have "run (pump 0 (outputs s)) s = Inr s'" by simp
  with s'(2) show ?case by blast
next
  case (Suc n)
  then obtain x xs where q: "queue (src s) = x # xs" "length xs = n"
    by (cases "queue (src s)") auto
  let ?s1 = "s\<lparr>src := (src s)\<lparr>queue := xs\<rparr>, readlog := readlog s @ [x], loops := [AtSnapshot x]\<rparr>"
  have e: "exec (EvLoop 0) s = Inr ?s1" using Suc.prems(3) q(1) by (simp add: RunStep_recv_def)
  have i1: "sound ?s1" using Suc.prems(1) e by (rule inv_exec)
  have w1: "writer ?s1 = BlockingWriter" using Suc.prems(2) by simp
  from snapshot_serve[OF i1 w1, of x] obtain s2 where
    s2: "run (EvLoop 0 # serve (outputs ?s1)) ?s1 = Inr s2" "loops s2 = [AtRead]"
    "src s2 = src ?s1" "outputs s2 = outputs ?s1" by auto
  have r2: "run ([EvLoop 0] @ (EvLoop 0 # serve (outputs s))) s = Inr s2"
    by (rule run_seq[OF run_single[OF e]]) (use s2(1) in simp)
  have i2: "sound s2" using Suc.prems(1) r2 by (rule inv_run)
  have w2: "writer s2 = BlockingWriter" using run_frame[OF r2] Suc.prems(2) by simp
  have c2: "sclosed (src s2)" "length (queue (src s2)) = n" using s2(3) Suc.prems(4) q(2) by simp_all
  from Suc.IH[OF i2 w2 s2(2) c2] obtain s' where
    s': "run (pump n (outputs s2)) s2 = Inr s'" "loops s' = [Exited]" by blast
  have o2: "outputs s2 = outputs s" using s2(4) by simp
  have "run (([EvLoop 0] @ (EvLoop 0 # serve (outputs s))) @ pump n (outputs s)) s = Inr s'"
    using r2 s'(1)[unfolded o2] by (rule run_seq)
  then have "run (pump (Suc n) (outputs s)) s = Inr s'" by simp
  with s'(2) show ?case by blast
qed


lemma finish_ok:
  assumes i: "sound s" and ti: "timer_inv s" and w: "writer s = BlockingWriter"
    and c: "sclosed (src s)"
  shows "\<exists>s'. run (finish s) s = Inr s' \<and> loops s' = [Exited]"
proof (cases "loops s")
  case Nil
  with i have n: "\<not> started s" "\<not> lock s" by (auto simp: inv_defs)
  let ?s1 = "s\<lparr>started := True, loops := [AtRead]\<rparr>"
  have e: "exec EvStart s = Inr ?s1" using n Nil by (simp add: Start_def)
  have i1: "sound ?s1" using i e by (rule inv_exec)
  from pump_ok[OF i1, of "length (queue (src s))"] w c obtain s' where
    s': "run (pump (length (queue (src s))) (outputs s)) ?s1 = Inr s'" "loops s' = [Exited]" by auto
  have "run ([EvStart] @ pump (length (queue (src s))) (outputs s)) s = Inr s'"
    by (rule run_seq[OF run_single[OF e] s'(1)])
  then have "run (finish s) s = Inr s'" using Nil by (simp add: finish_def)
  with s'(2) show ?thesis by blast
next
  case (Cons p ps)
  with i have l: "loops s = [p]" by (auto simp: inv_defs split: list.splits)
  show ?thesis
  proof (cases p)
    case AtRead
    from pump_ok[OF i w, of "length (queue (src s))"] l AtRead c show ?thesis
      by (simp add: finish_def)
  next
    case (AtSnapshot x)
    from snapshot_serve[OF i w, of x] l AtSnapshot obtain s2 where
      s2: "run (EvLoop 0 # serve (outputs s)) s = Inr s2" "loops s2 = [AtRead]"
      "src s2 = src s" "outputs s2 = outputs s" by auto
    have i2: "sound s2" using i s2(1) by (rule inv_run)
    have w2: "writer s2 = BlockingWriter" using run_frame[OF s2(1)] w by simp
    from pump_ok[OF i2 w2 s2(2), of "length (queue (src s))"] c s2(3,4) obtain s' where
      s': "run (pump (length (queue (src s))) (outputs s)) s2 = Inr s'" "loops s' = [Exited]" by auto
    have "run ((EvLoop 0 # serve (outputs s)) @ pump (length (queue (src s))) (outputs s)) s = Inr s'"
      using s2(1) s'(1) by (rule run_seq)
    then have "run (finish s) s = Inr s'" using l AtSnapshot by (simp add: finish_def)
    with s'(2) show ?thesis by blast
  next
    case (Writing x outs)
    from serve_ok[OF i w, of x outs] l Writing obtain s2 where
      s2: "run (serve outs) s = Inr s2" "loops s2 = [AtRead]"
      "src s2 = src s" "outputs s2 = outputs s" by auto
    have i2: "sound s2" using i s2(1) by (rule inv_run)
    have w2: "writer s2 = BlockingWriter" using run_frame[OF s2(1)] w by simp
    from pump_ok[OF i2 w2 s2(2), of "length (queue (src s))"] c s2(3,4) obtain s' where
      s': "run (pump (length (queue (src s))) (outputs s)) s2 = Inr s'" "loops s' = [Exited]" by auto
    have "run (serve outs @ pump (length (queue (src s))) (outputs s)) s = Inr s'"
      using s2(1) s'(1) by (rule run_seq)
    then have "run (finish s) s = Inr s'" using l Writing by (simp add: finish_def)
    with s'(2) show ?thesis by blast
  next
    case (InSelect x out rest t)
    with ti l w show ?thesis by (simp add: timer_inv_def timer_ok_def)
  next
    case AtShutdown
    from shutdown_run[OF i] l AtShutdown show ?thesis by (simp add: finish_def)
  next
    case AtSignal
    from signal_step[OF i] l AtSignal obtain c where
      "exec (EvLoop 0) s = Inr (s\<lparr>Finished := c, lock := False, loops := [Exited]\<rparr>)" by auto
    then have "run (finish s) s = Inr (s\<lparr>Finished := c, lock := False, loops := [Exited]\<rparr>)"
      using l AtSignal by (simp add: finish_def)
    then show ?thesis by (intro exI[of _ "s\<lparr>Finished := c, lock := False, loops := [Exited]\<rparr>"]) simp
  next
    case Exited
    with l show ?thesis by (simp add: finish_def)
  qed
qed

lemma reach_facts:
  assumes "constructed m" "run es (boot L m) = Inr s"
  shows "sound s" "timer_inv s" "nodup s" "late_inv s" "writer s = writer m"
    "readlog s @ queue (src s) = queue (src m) @ pushes es"
proof -
  have b: "sound (boot L m)" using assms(1) by (rule inv_boot)
  have t: "timer_inv (boot L m)" by (simp add: timer_inv_def boot_sel)
  have n: "nodup (boot L m)" by (simp add: nodup_def rel_def boot_sel)
  have l: "late_inv (boot L m)" by (simp add: late_inv_def boot_sel)
  show "sound s" using b assms(2) by (rule inv_run)
  show "timer_inv s" using t assms(2) by (rule timer_inv_run)
  show "nodup s" using b t n assms(2) by (rule nodup_run)
  show "late_inv s" using b l assms(2) by (rule late_inv_run)
  show "writer s = writer m" using run_frame[OF assms(2)] by (simp add: boot_sel)
  show "readlog s @ queue (src s) = queue (src m) @ pushes es"
    using run_pushes[OF assms(2)] by (simp add: boot_sel)
qed

section \<open>Start\<close>

text \<open>
  Claim C4. In every reachable state there is at most one goroutine. \<^verbatim>\<open>Start\<close> on a
  mux that is not started launches one; on a started mux (running or finished) it
  returns with the state unchanged, after waiting for the lock if \<^verbatim>\<open>shutdown\<close> holds
  it. Nothing is delivered twice: the items read from the source followed by those
  still on offer are exactly the source's items in order, and what each output's channel
  has been sent is a subsequence of the items read.
\<close>

theorem start_is_idempotent:
  assumes "constructed m" "run es (boot L m) = Inr s"
  shows "length (loops s) \<le> 1 \<and>
    (\<not> started s \<longrightarrow> loops s = [] \<and> Start s = Inr (s\<lparr>started := True, loops := [AtRead]\<rparr>)) \<and>
    (started s \<longrightarrow> length (loops s) = 1 \<and> Start s = (if lock s then Inl Blocks else Inr s)) \<and>
    readlog s @ queue (src s) = queue (src m) @ pushes es \<and>
    (\<forall>a<length (chans s). subseq (delivered (chans s ! a)) (readlog s))"
proof -
  note f = reach_facts[OF assms]
  from f(1) have li: "loops_inv s" and lk: "lock_inv s" by (simp_all add: sound_def)
  have p1: "length (loops s) \<le> 1" using li by (auto simp: loops_inv_def split: list.splits)
  have p2: "loops s = [] \<and> Start s = Inr (s\<lparr>started := True, loops := [AtRead]\<rparr>)" if "\<not> started s"
  proof -
    from li that have n: "loops s = []" by (auto simp: loops_inv_def split: list.splits)
    with lk have "\<not> lock s" by (simp add: lock_inv_def)
    with n that show ?thesis by (simp add: Start_def)
  qed
  have p3: "length (loops s) = 1 \<and> Start s = (if lock s then Inl Blocks else Inr s)" if "started s"
    using li that by (auto simp: loops_inv_def Start_def split: list.splits)
  have p5: "subseq (delivered (chans s ! a)) (readlog s)" if "a < length (chans s)" for a
  proof -
    from f(3) that have "subseq (delivered (chans s ! a)) (due s a)" by (simp add: nodup_def rel_def)
    then show ?thesis using due_subseq[of s a] by (rule subseq_order.order_trans)
  qed
  from p1 p2 p3 f(6) p5 show ?thesis by blast
qed

theorem start_is_idempotent_witness:
  "constructed (NewBlockingPairMux \<lparr>queue = [5::nat], sclosed = False\<rparr>) \<and>
   (\<exists>s. run [EvAddOutput ''a'' 1, EvStart, EvStart, EvLoop 0, EvLoop 0, EvLoop 0, EvStart]
          (boot limit64 (NewBlockingPairMux \<lparr>queue = [5::nat], sclosed = False\<rparr>)) = Inr s \<and>
      started s \<and> \<not> lock s \<and> length (loops s) = 1 \<and> Start s = Inr s \<and>
      0 < length (chans s) \<and> subseq (delivered (chans s ! 0)) (readlog s)) \<and>
   (\<exists>s. run [] (boot limit64 (NewBlockingPairMux \<lparr>queue = [5::nat], sclosed = False\<rparr>)) = Inr s \<and>
      \<not> started s \<and> Start s = Inr (s\<lparr>started := True, loops := [AtRead]\<rparr>))"
proof -
  let ?m = "NewBlockingPairMux \<lparr>queue = [5::nat], sclosed = False\<rparr>"
  have c: "constructed ?m" by (simp add: eval_defs)
  have "\<exists>s. run [EvAddOutput ''a'' 1, EvStart, EvStart, EvLoop 0, EvLoop 0, EvLoop 0, EvStart] (boot limit64 ?m) = Inr s \<and>
      started s \<and> \<not> lock s \<and> 0 < length (chans s)"
    by (simp add: eval_defs)
  then obtain s where r: "run [EvAddOutput ''a'' 1, EvStart, EvStart, EvLoop 0, EvLoop 0, EvLoop 0, EvStart] (boot limit64 ?m) = Inr s"
    and l: "started s" "\<not> lock s" "0 < length (chans s)" by iprover
  have "\<exists>s. run [] (boot limit64 ?m) = Inr s \<and> \<not> started s" by (simp add: eval_defs)
  then obtain t where r': "run [] (boot limit64 ?m) = Inr t" and l': "\<not> started t" by iprover
  note th = start_is_idempotent[OF c r]
  note th' = start_is_idempotent[OF c r']
  from th l(1) have a: "length (loops s) = 1" "Start s = (if lock s then Inl Blocks else Inr s)"
    by blast+
  from a(2) l(2) have a2: "Start s = Inr s" by simp
  from th l(3) have a3: "subseq (delivered (chans s ! 0)) (readlog s)" by blast
  from th' l' have b: "Start t = Inr (t\<lparr>started := True, loops := [AtRead]\<rparr>)" by blast
  from c r l a(1) a2 a3 r' l' b show ?thesis by blast
qed


section \<open>Delivery under the blocking strategy\<close>

text \<open>
  Claim C3. Take a mux made by \<^verbatim>\<open>NewBlockingPairMux\<close>, a reachable state \<open>s1\<close> in
  which the goroutine's first receive from the source has not returned (the mux is not
  started, or the goroutine stands at the receive and nothing has been read), an output
  registered by then, and any continuation to \<open>s2\<close>. The output's channel has been
  sent exactly the items read from the source, in the order read, less the item in hand
  while the output is still to be served with it. When the goroutine has exited, the
  channel has been sent exactly the source's items (those on offer at construction
  followed by those pushed since) in order, and it is closed, so its reader sees the end
  of the stream after them. And once the source is closed the run can be completed: the
  schedule \<open>finish\<close>, in which consumers receive and the goroutine steps, ends with
  the goroutine exited.
\<close>

theorem blocking_delivers_all_in_order:
  assumes "run pre (boot L (NewBlockingPairMux sr)) = Inr s1"
    and "loops s1 = [] \<or> loops s1 = [AtRead]" and "readlog s1 = []"
    and "a < length (chans s1)"
    and "run es s1 = Inr s2"
  shows "delivered (chans s2 ! a) = due s2 a \<and>
    (loops s2 = [Exited] \<longrightarrow>
       delivered (chans s2 ! a) = queue sr @ pushes (pre @ es) \<and> closed (chans s2 ! a)) \<and>
    (sclosed (src s2) \<longrightarrow> (\<exists>s3. run (finish s2) s2 = Inr s3 \<and> loops s3 = [Exited]))"
proof -
  have c: "constructed (NewBlockingPairMux sr)"
    by (simp add: constructed_def NewBlockingPairMux_def)
  note f1 = reach_facts[OF c assms(1)]
  have r12: "run (pre @ es) (boot L (NewBlockingPairMux sr)) = Inr s2"
    using assms(1,5) by (rule run_seq)
  note f2 = reach_facts[OF c r12]
  have w1: "writer s1 = BlockingWriter" using f1(5) by (simp add: NewBlockingPairMux_def)
  have w2: "writer s2 = BlockingWriter" using f2(5) by (simp add: NewBlockingPairMux_def)
  have d1: "due s1 b = []" for b using assms(2,3) by (auto simp: due_def)
  have "rel (=) (length (chans s1)) s1"
    unfolding rel_def
  proof (intro conjI allI impI)
    fix b assume "b < length (chans s1)"
    with f1(3) have "subseq (delivered (chans s1 ! b)) (due s1 b)" by (simp add: nodup_def rel_def)
    then show "delivered (chans s1 ! b) = due s1 b" by (simp add: d1)
  qed simp
  then have "rel (=) (length (chans s1)) s2"
    using w1 f1(1,2) assms(5) by (intro rel_run[of "(=)" s1 "length (chans s1)" es s2]) auto
  then have p1: "delivered (chans s2 ! a) = due s2 a" using assms(4) by (simp add: rel_def)
  have p2: "delivered (chans s2 ! a) = queue sr @ pushes (pre @ es) \<and> closed (chans s2 ! a)"
    if x: "loops s2 = [Exited]"
  proof -
    from f2(1) x have "exhausted s2" by (auto simp: inv_defs)
    then have "readlog s2 = queue sr @ pushes (pre @ es)"
      using f2(6) by (simp add: exhausted_def NewBlockingPairMux_def)
    moreover have "due s2 a = readlog s2" using x by (simp add: due_def)
    moreover have "loops s1 \<noteq> [Exited]" using assms(2) by auto
    from closed_at_exit[OF f1(1) this assms(5) x assms(4)] have "closed (chans s2 ! a)" .
    ultimately show ?thesis using p1 by simp
  qed
  have p3: "\<exists>s3. run (finish s2) s2 = Inr s3 \<and> loops s3 = [Exited]" if "sclosed (src s2)"
    using f2(1,2) w2 that by (rule finish_ok)
  from p1 p2 p3 show ?thesis by blast
qed

theorem blocking_delivers_all_in_order_witness:
  "\<exists>s1 s2. run [EvAddOutput ''a'' 10, EvAddOutput ''b'' 10, EvStart] (boot limit64 (NewBlockingPairMux \<lparr>queue = [1, 2, 3 :: nat], sclosed = True\<rparr>)) = Inr s1 \<and>
      loops s1 = [AtRead] \<and> readlog s1 = [] \<and> 0 < length (chans s1) \<and> 1 < length (chans s1) \<and>
      run [EvLoop 0, EvLoop 0, EvLoop 0, EvLoop 0, EvLoop 0, EvLoop 0, EvLoop 0, EvLoop 0, EvLoop 0, EvLoop 0, EvLoop 0, EvLoop 0, EvLoop 0, EvLoop 0, EvLoop 0, EvLoop 0, EvLoop 0, EvLoop 0] s1 = Inr s2 \<and>
      loops s2 = [Exited] \<and>
      delivered (chans s2 ! 0) = [1, 2, 3] \<and> closed (chans s2 ! 0) \<and>
      delivered (chans s2 ! 1) = [1, 2, 3] \<and> closed (chans s2 ! 1) \<and>
      sclosed (src s1) \<and> (\<exists>s3. run (finish s1) s1 = Inr s3 \<and> loops s3 = [Exited])"
proof -
  let ?m = "NewBlockingPairMux \<lparr>queue = [1, 2, 3 :: nat], sclosed = True\<rparr>"
  have "\<exists>s1 s2. run [EvAddOutput ''a'' 10, EvAddOutput ''b'' 10, EvStart] (boot limit64 ?m) = Inr s1 \<and>
      loops s1 = [AtRead] \<and> readlog s1 = [] \<and> 0 < length (chans s1) \<and> 1 < length (chans s1) \<and>
      sclosed (src s1) \<and> run [EvLoop 0, EvLoop 0, EvLoop 0, EvLoop 0, EvLoop 0, EvLoop 0, EvLoop 0, EvLoop 0, EvLoop 0, EvLoop 0, EvLoop 0, EvLoop 0, EvLoop 0, EvLoop 0, EvLoop 0, EvLoop 0, EvLoop 0, EvLoop 0] s1 = Inr s2 \<and> loops s2 = [Exited]"
    by (simp add: eval_defs)
  then obtain s1 s2 where r1: "run [EvAddOutput ''a'' 10, EvAddOutput ''b'' 10, EvStart] (boot limit64 ?m) = Inr s1"
    and l1: "loops s1 = [AtRead]" "readlog s1 = []" "0 < length (chans s1)" "1 < length (chans s1)"
      "sclosed (src s1)"
    and r2: "run [EvLoop 0, EvLoop 0, EvLoop 0, EvLoop 0, EvLoop 0, EvLoop 0, EvLoop 0, EvLoop 0, EvLoop 0, EvLoop 0, EvLoop 0, EvLoop 0, EvLoop 0, EvLoop 0, EvLoop 0, EvLoop 0, EvLoop 0, EvLoop 0] s1 = Inr s2" and l2: "loops s2 = [Exited]" by iprover
  have l1': "loops s1 = [] \<or> loops s1 = [AtRead]" using l1(1) by simp
  have r0: "run [] s1 = Inr s1" by simp
  have p: "queue \<lparr>queue = [1, 2, 3 :: nat], sclosed = True\<rparr> @ pushes ([EvAddOutput ''a'' 10, EvAddOutput ''b'' 10, EvStart] @ [EvLoop 0, EvLoop 0, EvLoop 0, EvLoop 0, EvLoop 0, EvLoop 0, EvLoop 0, EvLoop 0, EvLoop 0, EvLoop 0, EvLoop 0, EvLoop 0, EvLoop 0, EvLoop 0, EvLoop 0, EvLoop 0, EvLoop 0, EvLoop 0]) = [1, 2, 3]"
    by simp
  note tha = blocking_delivers_all_in_order[OF r1 l1' l1(2) l1(3) r2]
  note thb = blocking_delivers_all_in_order[OF r1 l1' l1(2) l1(4) r2]
  note thc = blocking_delivers_all_in_order[OF r1 l1' l1(2) l1(3) r0]
  from tha l2 have a: "delivered (chans s2 ! 0) = queue \<lparr>queue = [1, 2, 3 :: nat], sclosed = True\<rparr> @ pushes ([EvAddOutput ''a'' 10, EvAddOutput ''b'' 10, EvStart] @ [EvLoop 0, EvLoop 0, EvLoop 0, EvLoop 0, EvLoop 0, EvLoop 0, EvLoop 0, EvLoop 0, EvLoop 0, EvLoop 0, EvLoop 0, EvLoop 0, EvLoop 0, EvLoop 0, EvLoop 0, EvLoop 0, EvLoop 0, EvLoop 0])"
    "closed (chans s2 ! 0)" by blast+
  from thb l2 have b: "delivered (chans s2 ! 1) = queue \<lparr>queue = [1, 2, 3 :: nat], sclosed = True\<rparr> @ pushes ([EvAddOutput ''a'' 10, EvAddOutput ''b'' 10, EvStart] @ [EvLoop 0, EvLoop 0, EvLoop 0, EvLoop 0, EvLoop 0, EvLoop 0, EvLoop 0, EvLoop 0, EvLoop 0, EvLoop 0, EvLoop 0, EvLoop 0, EvLoop 0, EvLoop 0, EvLoop 0, EvLoop 0, EvLoop 0, EvLoop 0])"
    "closed (chans s2 ! 1)" by blast+
  from thc l1(5) have d: "\<exists>s3. run (finish s1) s1 = Inr s3 \<and> loops s3 = [Exited]" by blast
  from a(1) b(1) p have a': "delivered (chans s2 ! 0) = [1, 2, 3]" and b': "delivered (chans s2 ! 1) = [1, 2, 3]"
    by (simp_all only:)
  from r1 l1 r2 l2 a' a(2) b' b(2) d show ?thesis by blast
qed

end
